theory Spec2Isabelle
  imports Main
begin

section \<open>Strings of the runtime\<close>

text \<open>
  A JavaScript string is modelled as a \<^typ>\<open>string\<close>, one \<^typ>\<open>char\<close> per code unit; the
  model covers the strings whose code units are below 256. On these,
  \<open>String.prototype.toLowerCase\<close> lowers \<open>A\<close>..\<open>Z\<close> and the capitals \<open>0xC0\<close>..\<open>0xDE\<close> other
  than the multiplication sign \<open>0xD7\<close>, each to the code unit 32 above it, and
  \<open>String.prototype.trim\<close> strips tab, line feed, vertical tab, form feed, carriage
  return, space and the no-break space \<open>0xA0\<close>.
\<close>

definition lower_char :: "char \<Rightarrow> char" where
  "lower_char c =
     (let n = (of_char c :: nat) in
      if (65 \<le> n \<and> n \<le> 90) \<or> (192 \<le> n \<and> n \<le> 222 \<and> n \<noteq> 215) then char_of (n + 32) else c)"

definition toLowerCase :: "string \<Rightarrow> string" where
  "toLowerCase s = map lower_char s"

definition startsWith :: "string \<Rightarrow> string \<Rightarrow> bool" where
  "startsWith s p = (take (length p) s = p)"

fun str_includes :: "string \<Rightarrow> string \<Rightarrow> bool" where
  "str_includes [] p = (p = [])"
| "str_includes (c # cs) p = (startsWith (c # cs) p \<or> str_includes cs p)"

definition is_space :: "char \<Rightarrow> bool" where
  "is_space c = (c \<in> set [CHR 0x09, CHR 0x0A, CHR 0x0B, CHR 0x0C, CHR 0x0D, CHR 0x20, CHR 0xA0])"

definition trim :: "string \<Rightarrow> string" where
  "trim s = dropWhile is_space (rev (dropWhile is_space (rev s)))"

text \<open>\<open>s.split(d)\<close> for a one-character separator: never the empty list.\<close>

fun split :: "char \<Rightarrow> string \<Rightarrow> string list" where
  "split d [] = [[]]"
| "split d (c # cs) =
     (if c = d then [] # split d cs
      else (case split d cs of
              l # ls \<Rightarrow> (c # l) # ls
            | [] \<Rightarrow> [[c]]))"

text \<open>Decimal rendering of a number inside a template literal.\<close>

definition digit_char :: "nat \<Rightarrow> char" where
  "digit_char d = ''0123456789'' ! d"

function show_nat :: "nat \<Rightarrow> string" where
  "show_nat n = (if n < 10 then [digit_char n] else show_nat (n div 10) @ [digit_char (n mod 10)])"
  by pat_completeness auto
termination
  by (relation "measure id") auto

declare show_nat.simps [simp del]

section \<open>Data model of the orchestrator\<close>

datatype status = pending | in_progress | completed | failed

text \<open>
  \<open>AgentResult\<close>, as far as the orchestrator reads it: \<open>processTask\<close> answers
  \<open>{success: true, result}\<close> or \<open>{success: false, error}\<close>; in the second form the
  field \<open>result\<close> is absent (\<open>undefined\<close>).
\<close>

record agent_result =
  ar_success :: bool
  ar_result :: "string option"
  ar_error :: "string option"

text \<open>What \<open>task.result\<close> holds: a worker's answer, the \<open>{error}\<close> object of a catch
  block, or the combined object of the collaborative strategy.\<close>

datatype task_result =
    Worker_result agent_result
  | Error_result string
  | Combined_result agent_result agent_result "string option"

record task =
  task_id :: string
  description :: string
  priority :: string
  dependencies :: "string list"
  assignedAgent :: "string option"
  status :: status
  result :: "task_result option"

record partial_task =
  pt_description :: "string option"
  pt_priority :: "string option"
  pt_dependencies :: "string list option"

section \<open>parseTaskBreakdown\<close>

definition truthy :: "string option \<Rightarrow> bool" where
  "truthy v = (case v of None \<Rightarrow> False | Some s \<Rightarrow> s \<noteq> [])"

definition or_default :: "string option \<Rightarrow> string \<Rightarrow> string" where
  "or_default v d = (case v of None \<Rightarrow> d | Some s \<Rightarrow> if s = [] then d else s)"

definition push_current :: "task list \<Rightarrow> partial_task \<Rightarrow> task list" where
  "push_current tasks currentTask =
     (if truthy (pt_description currentTask) then
        tasks @ [\<lparr>task_id = ''task-'' @ show_nat (length tasks + 1),
                   description = the (pt_description currentTask),
                   priority = or_default (pt_priority currentTask) ''medium'',
                   dependencies = (case pt_dependencies currentTask of None \<Rightarrow> [] | Some ds \<Rightarrow> ds),
                   assignedAgent = None,
                   status = pending,
                   result = None\<rparr>]
      else tasks)"

definition strip_marker :: "string \<Rightarrow> string" where
  "strip_marker trimmed =
     (if startsWith trimmed ''Task:'' then drop 5 trimmed
      else if startsWith trimmed ''-'' then drop 1 trimmed
      else trimmed)"

definition parse_line :: "task list \<times> partial_task \<Rightarrow> string \<Rightarrow> task list \<times> partial_task" where
  "parse_line acc line =
     (let tasks = fst acc; currentTask = snd acc; trimmed = trim line in
      if startsWith trimmed ''Task:'' \<or> startsWith trimmed ''-'' then
        (push_current tasks currentTask,
         \<lparr>pt_description = Some (trim (strip_marker trimmed)),
          pt_priority = Some ''medium'',
          pt_dependencies = Some []\<rparr>)
      else if startsWith trimmed ''Priority:'' then
        (tasks, currentTask\<lparr>pt_priority := Some (toLowerCase (trim (drop 9 trimmed)))\<rparr>)
      else if startsWith trimmed ''Depends on:'' then
        (tasks, currentTask\<lparr>pt_dependencies :=
           Some (filter (\<lambda>d. length d > 0) (map trim (split CHR '','' (trim (drop 11 trimmed)))))\<rparr>)
      else (tasks, currentTask))"

definition fallback_task :: "string \<Rightarrow> task" where
  "fallback_task originalDescription =
     \<lparr>task_id = ''task-1'', description = originalDescription, priority = ''medium'',
      dependencies = [], assignedAgent = None, status = pending, result = None\<rparr>"

definition parseTaskBreakdown :: "string \<Rightarrow> string \<Rightarrow> task list" where
  "parseTaskBreakdown analysisResult originalDescription =
     (let lines = split CHR 0x0A analysisResult;
          acc = foldl parse_line ([], \<lparr>pt_description = None, pt_priority = None, pt_dependencies = None\<rparr>) lines;
          tasks = push_current (fst acc) (snd acc)
      in if length tasks > 0 then tasks else [fallback_task originalDescription])"

section \<open>selectBestAgent\<close>

definition selectBestAgent :: "task \<Rightarrow> string" where
  "selectBestAgent t =
     (let taskText = toLowerCase (description t) in
      if str_includes taskText ''architecture'' \<or> str_includes taskText ''design'' \<or> str_includes taskText ''plan''
        then ''architect''
      else if str_includes taskText ''test'' \<or> str_includes taskText ''quality'' \<or> str_includes taskText ''bug''
        then ''tester''
      else if str_includes taskText ''document'' \<or> str_includes taskText ''readme'' \<or> str_includes taskText ''guide''
        then ''documenter''
      else if str_includes taskText ''review'' \<or> str_includes taskText ''improve'' \<or> str_includes taskText ''refactor''
        then ''reviewer''
      else ''developer'')"

section \<open>The team and the language-model capability\<close>

text \<open>
  \<open>initializeTeam\<close> builds one \<open>CustomAIAgent\<close> per role key and a separate lead; the
  maps \<open>members\<close> and \<open>roles\<close> have these five keys, in this order. The selectors below
  return only these keys, so the lookups \<open>members.get(agent)!\<close> always find a worker.
\<close>

definition role_keys :: "string list" where
  "role_keys = [''architect'', ''developer'', ''tester'', ''reviewer'', ''documenter'']"

definition role_name :: "string \<Rightarrow> string option" where
  "role_name k =
     map_of [(''architect'', ''Software Architect''), (''developer'', ''Senior Developer''),
             (''tester'', ''QA Engineer''), (''reviewer'', ''Code Reviewer''),
             (''documenter'', ''Technical Writer'')] k"

text \<open>A value inside a template literal; \<open>undefined\<close> is rendered by its name.\<close>

definition js_string :: "string option \<Rightarrow> string" where
  "js_string v = (case v of None \<Rightarrow> ''undefined'' | Some s \<Rightarrow> s)"

text \<open>
  One invocation \<open>agent.processTask(prompt, {reasoning, maxSteps})\<close>. The receiver is
  \<open>''lead''\<close> or the key of a member.
\<close>

record call =
  call_agent :: string
  call_prompt :: string
  call_reasoning :: bool
  call_maxSteps :: nat

text \<open>
  What lies outside the orchestrator. \<open>processTask\<close> is the worker capability: the
  answer to the \<open>n\<close>-th invocation of a run (counted from 0) is either a rejection with
  an error message (\<open>Inl\<close>) or an \<open>AgentResult\<close> (\<open>Inr\<close>); indexing by \<open>n\<close> lets the same
  prompt be answered differently each time. The catch blocks of the strategies handle the
  rejection; the result without text is what \<open>CustomAIAgent.processTask\<close> returns from its
  own catch block. \<open>finish_rank\<close> orders the completions of the invocations that are in
  flight together (the smaller rank settles first, ties in dispatch order).
  \<open>json_result\<close> and \<open>json_contributions\<close> stand for \<open>JSON.stringify(_, null, 2)\<close>.
  Time stamps (\<open>Date.now()\<close>) are left out of tasks and timeline entries.
\<close>

type_synonym outcome = "string + agent_result"

type_synonym contributions = "(string \<times> (string \<times> agent_result) list) list"

record exec_result =
  success :: bool
  results :: "task_result list"
  validationIssues :: "string list option"

record environment =
  processTask :: "nat \<Rightarrow> call \<Rightarrow> outcome"
  finish_rank :: "nat \<Rightarrow> nat"
  json_result :: "exec_result \<Rightarrow> string"
  json_contributions :: "contributions \<Rightarrow> string"

datatype strategy_type = sequential | parallel | hierarchical | collaborative

record strategy =
  stype :: strategy_type
  maxConcurrency :: int
  retryOnFailure :: bool
  crossValidation :: bool

text \<open>
  The objects a run mutates in place: the task array, the timeline and the contribution
  map; \<open>calls\<close> records the invocations of the capability made so far.
\<close>

record run_state =
  tasks :: "task list"
  timeline :: "(string \<times> string) list"
  agentContributions :: contributions
  calls :: "call list"

text \<open>\<open>Map.set\<close> and a computed key in an object literal: an existing key keeps its place.\<close>

fun assoc_set :: "'k \<Rightarrow> 'v \<Rightarrow> ('k \<times> 'v) list \<Rightarrow> ('k \<times> 'v) list" where
  "assoc_set k v [] = [(k, v)]"
| "assoc_set k v (p # ps) = (if fst p = k then (k, v) # ps else p # assoc_set k v ps)"

definition push_event :: "string \<Rightarrow> string \<Rightarrow> run_state \<Rightarrow> run_state" where
  "push_event ev agent st = st\<lparr>timeline := timeline st @ [(ev, agent)]\<rparr>"

definition update_task :: "nat \<Rightarrow> (task \<Rightarrow> task) \<Rightarrow> run_state \<Rightarrow> run_state" where
  "update_task i f st = st\<lparr>tasks := (tasks st)[i := f (tasks st ! i)]\<rparr>"

definition contribute :: "string \<Rightarrow> string \<Rightarrow> agent_result \<Rightarrow> run_state \<Rightarrow> run_state" where
  "contribute agent tid r st =
     st\<lparr>agentContributions :=
          assoc_set agent
            (assoc_set tid r (case map_of (agentContributions st) agent of None \<Rightarrow> [] | Some m \<Rightarrow> m))
            (agentContributions st)\<rparr>"

definition invoke :: "environment \<Rightarrow> call \<Rightarrow> run_state \<Rightarrow> outcome \<times> run_state" where
  "invoke env c st = (processTask env (length (calls st)) c, st\<lparr>calls := calls st @ [c]\<rparr>)"

definition worker_call :: "string \<Rightarrow> string \<Rightarrow> nat \<Rightarrow> call" where
  "worker_call agent prompt steps =
     \<lparr>call_agent = agent, call_prompt = prompt, call_reasoning = True, call_maxSteps = steps\<rparr>"

section \<open>The steps shared by the strategies\<close>

text \<open>Before the \<open>try\<close>: the started event, \<open>in_progress\<close>, the assigned agent.\<close>

definition start_task :: "string \<Rightarrow> nat \<Rightarrow> string \<Rightarrow> run_state \<Rightarrow> run_state" where
  "start_task label i agent st =
     update_task i (\<lambda>t. t\<lparr>status := in_progress, assignedAgent := Some agent\<rparr>)
       (push_event (label @ description (tasks st ! i)) agent st)"

text \<open>The end of the \<open>try\<close> block of the sequential, parallel and hierarchical strategy.\<close>

definition complete_task :: "nat \<Rightarrow> string \<Rightarrow> agent_result \<Rightarrow> run_state \<Rightarrow> run_state" where
  "complete_task i agent r st =
     (let st1 = update_task i (\<lambda>t. t\<lparr>result := Some (Worker_result r), status := completed\<rparr>) st;
          st2 = contribute agent (task_id (tasks st1 ! i)) r st1
      in push_event (''Task completed: '' @ description (tasks st2 ! i)) agent st2)"

text \<open>The \<open>catch\<close> block, up to the test of \<open>retryOnFailure\<close>.\<close>

definition fail_task :: "nat \<Rightarrow> string \<Rightarrow> string \<Rightarrow> run_state \<Rightarrow> run_state" where
  "fail_task i agent msg st =
     (let st1 = update_task i (\<lambda>t. t\<lparr>status := failed, result := Some (Error_result msg)\<rparr>) st
      in push_event (''Task failed: '' @ description (tasks st1 ! i)) agent st1)"

section \<open>executeSequential\<close>

fun executeSequential_loop ::
  "environment \<Rightarrow> strategy \<Rightarrow> nat list \<Rightarrow> task_result list \<Rightarrow> run_state \<Rightarrow> exec_result \<times> run_state"
where
  "executeSequential_loop env this_strategy [] rs st =
     (\<lparr>success = True, results = rs, validationIssues = None\<rparr>, st)"
| "executeSequential_loop env this_strategy (i # rest) rs st =
     (let agent = selectBestAgent (tasks st ! i);
          st1 = start_task ''Task started: '' i agent st;
          answer = invoke env (worker_call agent (description (tasks st1 ! i)) 8) st1
      in case fst answer of
           Inr r \<Rightarrow>
             executeSequential_loop env this_strategy rest (rs @ [Worker_result r])
               (complete_task i agent r (snd answer))
         | Inl msg \<Rightarrow>
             (let st2 = fail_task i agent msg (snd answer) in
              if \<not> retryOnFailure this_strategy
              then (\<lparr>success = False, results = rs, validationIssues = None\<rparr>, st2)
              else executeSequential_loop env this_strategy rest rs st2))"

definition executeSequential ::
  "environment \<Rightarrow> strategy \<Rightarrow> run_state \<Rightarrow> exec_result \<times> run_state" where
  "executeSequential env this_strategy st =
     executeSequential_loop env this_strategy [0..<length (tasks st)] [] st"

section \<open>executeParallel\<close>

text \<open>\<open>tasks.slice(s, e)\<close> on an array of length \<open>n\<close> takes the positions \<open>lo..<hi\<close>.\<close>

definition slice_bounds :: "nat \<Rightarrow> int \<Rightarrow> int \<Rightarrow> nat \<times> nat" where
  "slice_bounds n s e =
     (let len = int n;
          k = (if s < 0 then max (len + s) 0 else min s len);
          final = (if e < 0 then max (len + e) 0 else min e len)
      in (nat k, nat final))"

text \<open>
  The callback of \<open>batch.map\<close> runs up to its \<open>await\<close> when it is called: the agent is
  selected, the task started and the capability invoked. What is in flight afterwards:
  the position of the task, the index of the invocation, the agent and the outcome.
\<close>

type_synonym inflight = "nat \<times> nat \<times> string \<times> outcome"

definition dispatch :: "environment \<Rightarrow> nat \<Rightarrow> run_state \<Rightarrow> inflight \<times> run_state" where
  "dispatch env i st =
     (let agent = selectBestAgent (tasks st ! i);
          st1 = start_task ''Task started: '' i agent st;
          answer = invoke env (worker_call agent (description (tasks st1 ! i)) 8) st1
      in ((i, length (calls st1), agent, fst answer), snd answer))"

fun dispatch_all :: "environment \<Rightarrow> nat list \<Rightarrow> run_state \<Rightarrow> inflight list \<times> run_state" where
  "dispatch_all env [] st = ([], st)"
| "dispatch_all env (i # rest) st =
     (let d = dispatch env i st;
          ds = dispatch_all env rest (snd d)
      in (fst d # fst ds, snd ds))"

text \<open>The rest of the callback, after the \<open>await\<close>.\<close>

definition settle :: "inflight \<Rightarrow> run_state \<Rightarrow> run_state" where
  "settle p st =
     (case p of (i, n, agent, answer) \<Rightarrow>
        (case answer of
           Inr r \<Rightarrow> complete_task i agent r st
         | Inl msg \<Rightarrow> fail_task i agent msg st))"

text \<open>One batch up to the return of \<open>Promise.allSettled\<close>, whose results are in batch order.\<close>

definition run_batch :: "environment \<Rightarrow> nat list \<Rightarrow> run_state \<Rightarrow> outcome list \<times> run_state" where
  "run_batch env batch st =
     (let ds = dispatch_all env batch st;
          order = sort_key (\<lambda>p. finish_rank env (fst (snd p))) (fst ds)
      in (map (\<lambda>p. snd (snd (snd p))) (fst ds), foldl (\<lambda>s p. settle p s) (snd ds) order))"

text \<open>The loop over \<open>batchResults\<close>; \<open>Inl\<close> is the early return.\<close>

fun collect_results ::
  "bool \<Rightarrow> outcome list \<Rightarrow> task_result list \<Rightarrow> task_result list + task_result list" where
  "collect_results retry [] rs = Inr rs"
| "collect_results retry (Inr r # rest) rs = collect_results retry rest (rs @ [Worker_result r])"
| "collect_results retry (Inl msg # rest) rs =
     (if \<not> retry then Inl rs else collect_results retry rest rs)"

text \<open>The loop \<open>for (let i = 0; i < tasks.length; i += maxConcurrency)\<close>; \<open>None\<close>: it never ends.\<close>

partial_function (option) executeParallel_loop ::
  "environment \<Rightarrow> strategy \<Rightarrow> int \<Rightarrow> task_result list \<Rightarrow> run_state \<Rightarrow> (exec_result \<times> run_state) option"
where
  "executeParallel_loop env this_strategy i rs st =
     (if i < int (length (tasks st)) then
        (let bounds = slice_bounds (length (tasks st)) i (i + maxConcurrency this_strategy);
             settled = run_batch env [fst bounds..<snd bounds] st
         in case collect_results (retryOnFailure this_strategy) (fst settled) rs of
              Inl rs1 \<Rightarrow> Some (\<lparr>success = False, results = rs1, validationIssues = None\<rparr>, snd settled)
            | Inr rs1 \<Rightarrow>
                executeParallel_loop env this_strategy (i + maxConcurrency this_strategy) rs1 (snd settled))
      else Some (\<lparr>success = True, results = rs, validationIssues = None\<rparr>, st))"

declare executeParallel_loop.simps [code]

definition executeParallel ::
  "environment \<Rightarrow> strategy \<Rightarrow> run_state \<Rightarrow> (exec_result \<times> run_state) option" where
  "executeParallel env this_strategy st = executeParallel_loop env this_strategy 0 [] st"

section \<open>executeHierarchical\<close>

definition priorityIndex :: "string \<Rightarrow> int" where
  "priorityIndex p =
     (if p = ''urgent'' then 0 else if p = ''high'' then 1 else if p = ''medium'' then 2
      else if p = ''low'' then 3 else - 1)"

definition compare_priority :: "task \<Rightarrow> task \<Rightarrow> int" where
  "compare_priority a b = priorityIndex (priority a) - priorityIndex (priority b)"

text \<open>
  \<open>Array.prototype.sort\<close> with a comparator is the runtime's: a stable sort, here by
  insertion from the right, an element going before the first one it does not exceed.
\<close>

fun insert_by :: "('a \<Rightarrow> 'a \<Rightarrow> int) \<Rightarrow> 'a \<Rightarrow> 'a list \<Rightarrow> 'a list" where
  "insert_by cmp x [] = [x]"
| "insert_by cmp x (y # ys) = (if cmp x y \<le> 0 then x # y # ys else y # insert_by cmp x ys)"

fun sort_by :: "('a \<Rightarrow> 'a \<Rightarrow> int) \<Rightarrow> 'a list \<Rightarrow> 'a list" where
  "sort_by cmp [] = []"
| "sort_by cmp (x # xs) = insert_by cmp x (sort_by cmp xs)"

definition guidance_call :: "task \<Rightarrow> string \<Rightarrow> call" where
  "guidance_call t agent =
     \<lparr>call_agent = ''lead'',
      call_prompt = ''Provide guidance for this task: '' @ description t @
                    ''\<newline>        Agent: '' @ agent @
                    ''\<newline>        Role: '' @ js_string (role_name agent),
      call_reasoning = False, call_maxSteps = 3\<rparr>"

definition guided_prompt :: "task \<Rightarrow> agent_result \<Rightarrow> string" where
  "guided_prompt t guidance =
     description t @ ''\<newline>\<newline>Guidance from lead: '' @ js_string (ar_result guidance)"

text \<open>The lead is consulted before the \<open>try\<close>: its rejection leaves the executor (\<open>Inl\<close>).\<close>

fun executeHierarchical_loop ::
  "environment \<Rightarrow> strategy \<Rightarrow> nat list \<Rightarrow> task_result list \<Rightarrow> run_state
     \<Rightarrow> string + exec_result \<times> run_state"
where
  "executeHierarchical_loop env this_strategy [] rs st =
     Inr (\<lparr>success = True, results = rs, validationIssues = None\<rparr>, st)"
| "executeHierarchical_loop env this_strategy (i # rest) rs st =
     (let agent = selectBestAgent (tasks st ! i);
          consulted = invoke env (guidance_call (tasks st ! i) agent) st
      in case fst consulted of
           Inl msg \<Rightarrow> Inl msg
         | Inr guidance \<Rightarrow>
             (let st1 = push_event (''Guidance provided for: '' @ description (tasks st ! i)) ''lead''
                          (snd consulted);
                  st2 = start_task ''Task started: '' i agent st1;
                  answer = invoke env (worker_call agent (guided_prompt (tasks st2 ! i) guidance) 8) st2
              in case fst answer of
                   Inr r \<Rightarrow>
                     executeHierarchical_loop env this_strategy rest (rs @ [Worker_result r])
                       (complete_task i agent r (snd answer))
                 | Inl msg \<Rightarrow>
                     (let st3 = fail_task i agent msg (snd answer) in
                      if \<not> retryOnFailure this_strategy
                      then Inr (\<lparr>success = False, results = rs, validationIssues = None\<rparr>, st3)
                      else executeHierarchical_loop env this_strategy rest rs st3)))"

definition executeHierarchical ::
  "environment \<Rightarrow> strategy \<Rightarrow> run_state \<Rightarrow> string + exec_result \<times> run_state" where
  "executeHierarchical env this_strategy st =
     (let sorted = st\<lparr>tasks := sort_by compare_priority (tasks st)\<rparr>
      in executeHierarchical_loop env this_strategy [0..<length (tasks sorted)] [] sorted)"

section \<open>executeCollaborative\<close>

definition selectSecondaryAgent :: "task \<Rightarrow> string \<Rightarrow> string" where
  "selectSecondaryAgent t primaryAgent =
     (let agents = filter (\<lambda>agent. agent \<noteq> primaryAgent) role_keys in
      if primaryAgent = ''developer'' then ''reviewer''
      else if primaryAgent = ''architect'' then ''developer''
      else if primaryAgent = ''tester'' then ''developer''
      else if primaryAgent = ''reviewer'' then ''developer''
      else if primaryAgent = ''documenter'' then ''reviewer''
      else hd agents)"

definition review_prompt :: "task \<Rightarrow> agent_result \<Rightarrow> string" where
  "review_prompt t primaryResult =
     ''Review and improve this work: '' @ js_string (ar_result primaryResult) @
     ''\<newline>          Original task: '' @ description t"

definition complete_collaborative ::
  "nat \<Rightarrow> string \<Rightarrow> string \<Rightarrow> agent_result \<Rightarrow> agent_result \<Rightarrow> run_state \<Rightarrow> run_state" where
  "complete_collaborative i primaryAgent secondaryAgent primaryResult secondaryResult st =
     (let combinedResult = Combined_result primaryResult secondaryResult (ar_result secondaryResult);
          st1 = update_task i (\<lambda>t. t\<lparr>result := Some combinedResult, status := completed\<rparr>) st;
          st2 = contribute primaryAgent (task_id (tasks st1 ! i)) primaryResult st1;
          st3 = contribute secondaryAgent (task_id (tasks st2 ! i)) secondaryResult st2
      in push_event (''Collaborative task completed: '' @ description (tasks st3 ! i)) secondaryAgent st3)"

fun executeCollaborative_loop ::
  "environment \<Rightarrow> strategy \<Rightarrow> nat list \<Rightarrow> task_result list \<Rightarrow> run_state \<Rightarrow> exec_result \<times> run_state"
where
  "executeCollaborative_loop env this_strategy [] rs st =
     (\<lparr>success = True, results = rs, validationIssues = None\<rparr>, st)"
| "executeCollaborative_loop env this_strategy (i # rest) rs st =
     (let primaryAgent = selectBestAgent (tasks st ! i);
          secondaryAgent = selectSecondaryAgent (tasks st ! i) primaryAgent;
          st1 = start_task ''Collaborative task started: '' i primaryAgent st;
          first = invoke env (worker_call primaryAgent (description (tasks st1 ! i)) 5) st1;
          second = (case fst first of
                      Inl msg \<Rightarrow> (Inl msg, snd first)
                    | Inr primaryResult \<Rightarrow>
                        (let answer = invoke env
                               (worker_call secondaryAgent (review_prompt (tasks st1 ! i) primaryResult) 5)
                               (snd first)
                         in (case fst answer of
                               Inl msg \<Rightarrow> Inl msg
                             | Inr secondaryResult \<Rightarrow> Inr (primaryResult, secondaryResult),
                             snd answer)))
      in case fst second of
           Inr both \<Rightarrow>
             executeCollaborative_loop env this_strategy rest
               (rs @ [Combined_result (fst both) (snd both) (ar_result (snd both))])
               (complete_collaborative i primaryAgent secondaryAgent (fst both) (snd both) (snd second))
         | Inl msg \<Rightarrow>
             (let st2 = fail_task i primaryAgent msg (snd second) in
              if \<not> retryOnFailure this_strategy
              then (\<lparr>success = False, results = rs, validationIssues = None\<rparr>, st2)
              else executeCollaborative_loop env this_strategy rest rs st2))"

definition executeCollaborative ::
  "environment \<Rightarrow> strategy \<Rightarrow> run_state \<Rightarrow> exec_result \<times> run_state" where
  "executeCollaborative env this_strategy st =
     executeCollaborative_loop env this_strategy [0..<length (tasks st)] [] st"

section \<open>crossValidate\<close>

record validation =
  passed :: bool
  issues :: "string list"
  recommendations :: "string list"

definition extract_lines :: "string \<Rightarrow> string \<Rightarrow> string \<Rightarrow> string list" where
  "extract_lines k1 k2 text =
     map (\<lambda>line. drop 2 (trim line))
       (filter (\<lambda>line. startsWith (trim line) ''- '' \<and>
                         (str_includes (toLowerCase line) k1 \<or> str_includes (toLowerCase line) k2))
          (split CHR 0x0A text))"

definition extractIssues :: "string \<Rightarrow> string list" where
  "extractIssues text = extract_lines ''issue'' ''problem'' text"

definition extractRecommendations :: "string \<Rightarrow> string list" where
  "extractRecommendations text = extract_lines ''recommend'' ''suggest'' text"

definition validation_call :: "environment \<Rightarrow> exec_result \<Rightarrow> contributions \<Rightarrow> call" where
  "validation_call env res contribs =
     worker_call ''reviewer''
       (''Cross-validate this work for quality, completeness, and correctness:'' @
        ''\<newline>      \<newline>      Results: '' @ json_result env res @
        ''\<newline>      Agent contributions: '' @ json_contributions env contribs @
        ''\<newline>      \<newline>      Provide:'' @
        ''\<newline>      1. Pass/fail assessment'' @
        ''\<newline>      2. List of issues found'' @
        ''\<newline>      3. Recommendations for improvement'') 5"

definition type_error :: "string \<Rightarrow> string" where
  "type_error property =
     ''Cannot read properties of undefined (reading '' @ [CHR 0x27] @ property @ [CHR 0x27] @ '')''"

text \<open>\<open>validation.result.toLowerCase()\<close> on an answer without text is a \<open>TypeError\<close>.\<close>

definition crossValidate ::
  "environment \<Rightarrow> exec_result \<Rightarrow> run_state \<Rightarrow> string + validation \<times> run_state" where
  "crossValidate env res st =
     (let answer = invoke env (validation_call env res (agentContributions st)) st in
      case fst answer of
        Inl msg \<Rightarrow> Inl msg
      | Inr v \<Rightarrow>
          (case ar_result v of
             None \<Rightarrow> Inl (type_error ''toLowerCase'')
           | Some text \<Rightarrow>
               (let validationText = toLowerCase text in
                Inr (\<lparr>passed = str_includes validationText ''pass'' \<and> \<not> str_includes validationText ''fail'',
                      issues = extractIssues text,
                      recommendations = extractRecommendations text\<rparr>,
                     snd answer))))"

section \<open>orchestrateTask\<close>

definition analysis_call :: "string \<Rightarrow> call" where
  "analysis_call d =
     worker_call ''lead''
       (''Analyze this task and break it down into smaller, manageable subtasks: '' @ d @
        ''\<newline>      \<newline>      Consider:'' @
        ''\<newline>      - Required skills and roles'' @
        ''\<newline>      - Task dependencies'' @
        ''\<newline>      - Priority levels'' @
        ''\<newline>      - Estimated complexity'' @
        ''\<newline>      - Required tools and resources'' @
        ''\<newline>      \<newline>      Available roles: '' @
        ''architect, developer, tester, reviewer, documenter'') 5"

text \<open>No \<open>try\<close> here: a rejection of the lead, or an answer without text (the
  \<open>TypeError\<close> of \<open>analysisResult.result.split\<close> inside \<open>parseTaskBreakdown\<close>), is thrown.\<close>

definition analyzeAndBreakdownTask ::
  "environment \<Rightarrow> string \<Rightarrow> run_state \<Rightarrow> string + task list \<times> run_state" where
  "analyzeAndBreakdownTask env d st =
     (let answer = invoke env (analysis_call d) st in
      case fst answer of
        Inl msg \<Rightarrow> Inl msg
      | Inr analysisResult \<Rightarrow>
          (case ar_result analysisResult of
             None \<Rightarrow> Inl (type_error ''split'')
           | Some text \<Rightarrow> Inr (parseTaskBreakdown text d, snd answer)))"

record run_report =
  report_success :: bool
  report_result :: exec_result
  taskBreakdown :: "task list"
  report_contributions :: contributions
  report_timeline :: "(string \<times> string) list"

text \<open>The \<open>switch\<close> on \<open>strategy.type\<close>; the executors themselves read \<open>this.strategy\<close>.\<close>

definition execute_strategy ::
  "environment \<Rightarrow> strategy \<Rightarrow> strategy_type \<Rightarrow> run_state \<Rightarrow> (string + exec_result \<times> run_state) option"
where
  "execute_strategy env this_strategy ty st =
     (case ty of
        sequential \<Rightarrow> Some (Inr (executeSequential env this_strategy st))
      | parallel \<Rightarrow> map_option Inr (executeParallel env this_strategy st)
      | hierarchical \<Rightarrow> Some (executeHierarchical env this_strategy st)
      | collaborative \<Rightarrow> Some (Inr (executeCollaborative env this_strategy st)))"

text \<open>Step 3 and the return; the \<open>taskCompleted\<close> event has no listener in the repository.\<close>

definition finish_run ::
  "environment \<Rightarrow> strategy \<Rightarrow> exec_result \<times> run_state \<Rightarrow> string + run_report \<times> call list" where
  "finish_run env strat executed =
     (let res = fst executed; st = snd executed;
          report = (\<lambda>ok r s. (\<lparr>report_success = ok, report_result = r, taskBreakdown = tasks s,
                                 report_contributions = agentContributions s,
                                 report_timeline = timeline s\<rparr>, calls s))
      in if crossValidation strat \<and> success res then
           (let st1 = push_event ''Cross-validation started'' ''reviewer'' st in
            case crossValidate env res st1 of
              Inl msg \<Rightarrow> Inl msg
            | Inr checked \<Rightarrow>
                (let st2 = push_event ''Cross-validation completed'' ''reviewer'' (snd checked) in
                 if \<not> passed (fst checked)
                 then Inr (report False (res\<lparr>validationIssues := Some (issues (fst checked))\<rparr>) st2)
                 else Inr (report (success res) res st2)))
         else Inr (report (success res) res st))"

text \<open>
  \<open>orchestrateTask(description, options)\<close> on an orchestrator built with \<open>this_strategy\<close>;
  of \<open>options\<close> only \<open>options.strategy\<close> is read. \<open>None\<close>: the call never returns;
  \<open>Some (Inl msg)\<close>: it throws; \<open>Some (Inr (report, calls))\<close>: it returns the report, having
  invoked the capability as \<open>calls\<close> lists.
\<close>

definition orchestrateTask ::
  "environment \<Rightarrow> strategy \<Rightarrow> string \<Rightarrow> strategy option \<Rightarrow> (string + run_report \<times> call list) option"
where
  "orchestrateTask env this_strategy d options_strategy =
     (let strat = (case options_strategy of Some s \<Rightarrow> s | None \<Rightarrow> this_strategy);
          st0 = push_event ''Task analysis started'' ''lead''
                  \<lparr>tasks = [], timeline = [], agentContributions = [], calls = []\<rparr>
      in case analyzeAndBreakdownTask env d st0 of
           Inl msg \<Rightarrow> Some (Inl msg)
         | Inr analysed \<Rightarrow>
             (let st1 = push_event ''Task breakdown completed'' ''lead''
                          ((snd analysed)\<lparr>tasks := fst analysed\<rparr>)
              in case execute_strategy env this_strategy (stype strat) st1 of
                   None \<Rightarrow> None
                 | Some (Inl msg) \<Rightarrow> Some (Inl msg)
                 | Some (Inr executed) \<Rightarrow> Some (finish_run env strat executed)))"

section \<open>Predicates used in the statements\<close>

definition terminal :: "status \<Rightarrow> bool" where
  "terminal s = (s = completed \<or> s = failed)"

text \<open>A line of the lead's answer that opens no task: it carries no marker, or nothing
  but blanks after the marker.\<close>

definition no_task_line :: "string \<Rightarrow> bool" where
  "no_task_line line =
     (let trimmed = trim line in
      (startsWith trimmed ''Task:'' \<or> startsWith trimmed ''-'') \<longrightarrow> trim (strip_marker trimmed) = [])"

definition described :: "string \<Rightarrow> task" where
  "described d = fallback_task d"

text \<open>What no strategy changes in a task, and the only way a status moves on.\<close>

definition same_work :: "task \<Rightarrow> task \<Rightarrow> bool" where
  "same_work t t' =
     (task_id t' = task_id t \<and> description t' = description t \<and> priority t' = priority t \<and>
      dependencies t' = dependencies t)"

definition advances :: "run_state \<Rightarrow> run_state \<Rightarrow> bool" where
  "advances st st' =
     (length (tasks st') = length (tasks st) \<and>
      (\<forall>j < length (tasks st).
         same_work (tasks st ! j) (tasks st' ! j) \<and>
         (status (tasks st' ! j) = status (tasks st ! j) \<or> terminal (status (tasks st' ! j)))))"

text \<open>The sort key of the hierarchical strategy.\<close>

definition rank :: "task \<Rightarrow> int" where
  "rank t = priorityIndex (priority t)"

text \<open>The two invocations the hierarchical strategy makes for one task, given the
  lead's answer.\<close>

definition consultation :: "task \<Rightarrow> agent_result \<Rightarrow> call list" where
  "consultation t guidance =
     [guidance_call t (selectBestAgent t),
      worker_call (selectBestAgent t) (guided_prompt t guidance) 8]"

text \<open>
  The parallel strategy in the words of the specification: the positions of the task list
  are partitioned into contiguous batches of size \<open>k\<close>, and the batches are run one after
  the other, the next one from the state in which the previous one has settled.
\<close>

function contiguous_batches :: "nat \<Rightarrow> 'a list \<Rightarrow> 'a list list" where
  "contiguous_batches k xs =
     (if k = 0 \<or> xs = [] then [] else take k xs # contiguous_batches k (drop k xs))"
  by pat_completeness auto
termination
  by (relation "measure (\<lambda>(k, xs). length xs)") auto

declare contiguous_batches.simps [simp del]

fun run_batches ::
  "environment \<Rightarrow> bool \<Rightarrow> nat list list \<Rightarrow> task_result list \<Rightarrow> run_state \<Rightarrow> exec_result \<times> run_state"
where
  "run_batches env retry [] rs st = (\<lparr>success = True, results = rs, validationIssues = None\<rparr>, st)"
| "run_batches env retry (batch # rest) rs st =
     (let settled = run_batch env batch st in
      case collect_results retry (fst settled) rs of
        Inl rs1 \<Rightarrow> (\<lparr>success = False, results = rs1, validationIssues = None\<rparr>, snd settled)
      | Inr rs1 \<Rightarrow> run_batches env retry rest rs1 (snd settled))"

text \<open>How the callback of a batch leaves its task: \<open>completed\<close> with the worker's answer, or
  \<open>failed\<close> with the \<open>{error}\<close> object of the catch block.\<close>

definition settled_as :: "outcome \<Rightarrow> task \<Rightarrow> bool" where
  "settled_as out t =
     (case out of
        Inr r \<Rightarrow> status t = completed \<and> result t = Some (Worker_result r)
      | Inl msg \<Rightarrow> status t = failed \<and> result t = Some (Error_result msg))"




definition no_failure :: "run_state \<Rightarrow> bool" where
  "no_failure st = (\<forall>j. j < length (tasks st) \<longrightarrow> status (tasks st ! j) \<noteq> failed)"


section \<open>Observing a run, and scripted environments\<close>

definition report_of :: "(string + run_report \<times> call list) option \<Rightarrow> run_report option" where
  "report_of r = (case r of Some (Inr (report, cs)) \<Rightarrow> Some report | _ \<Rightarrow> None)"

definition calls_of :: "(string + run_report \<times> call list) option \<Rightarrow> call list option" where
  "calls_of r = (case r of Some (Inr (report, cs)) \<Rightarrow> Some cs | _ \<Rightarrow> None)"


definition answer :: "string \<Rightarrow> agent_result" where
  "answer text = \<lparr>ar_success = True, ar_result = Some text, ar_error = None\<rparr>"


definition environment_of :: "(nat \<Rightarrow> call \<Rightarrow> outcome) \<Rightarrow> environment" where
  "environment_of respond =
     \<lparr>processTask = respond, finish_rank = (\<lambda>n. n),
      json_result = (\<lambda>r. ''{}''), json_contributions = (\<lambda>c. ''{}'')\<rparr>"

text \<open>
  The lead answers the analysis with \<open>plan\<close> and every later request with a short advice;
  the roles in \<open>failing\<close> reject every invocation; the reviewer answers \<open>verdict\<close>; every
  other member answers \<open>done\<close>.
\<close>

definition scripted :: "string \<Rightarrow> string \<Rightarrow> string list \<Rightarrow> environment" where
  "scripted plan verdict failing =
     environment_of (\<lambda>n c.
       if call_agent c = ''lead'' then Inr (answer (if n = 0 then plan else ''Keep it small''))
       else if call_agent c \<in> set failing then Inl ''boom''
       else if call_agent c = ''reviewer'' then Inr (answer verdict)
       else Inr (answer ''done''))"



definition run_of :: "task list \<Rightarrow> run_state" where
  "run_of ts = \<lparr>tasks = ts, timeline = [], agentContributions = [], calls = []\<rparr>"


text \<open>The timeline entries of one task in a batch: when it is dispatched, and when the
  in-flight invocation \<open>p\<close> settles.\<close>

definition started_event :: "run_state \<Rightarrow> nat \<Rightarrow> string \<times> string" where
  "started_event st i = (''Task started: '' @ description (tasks st ! i), selectBestAgent (tasks st ! i))"

definition finished_event :: "run_state \<Rightarrow> inflight \<Rightarrow> string \<times> string" where
  "finished_event st p =
     ((case snd (snd (snd p)) of Inr r \<Rightarrow> ''Task completed: '' | Inl msg \<Rightarrow> ''Task failed: '') @
        description (tasks st ! fst p),
      fst (snd (snd p)))"

section \<open>Verification\<close>

section \<open>The decomposer's parse\<close>

lemma push_current_falsy: "\<not> truthy (pt_description c) \<Longrightarrow> push_current ts c = ts"
  by (simp add: push_current_def)

lemma parse_line_no_task:
  assumes "no_task_line line" "fst acc = []" "\<not> truthy (pt_description (snd acc))"
  shows "fst (parse_line acc line) = [] \<and> \<not> truthy (pt_description (snd (parse_line acc line)))"
  using assms
  by (auto simp: parse_line_def no_task_line_def Let_def push_current_falsy truthy_def)

lemma foldl_parse_no_task:
  assumes "\<forall>line \<in> set ls. no_task_line line" "fst acc = []" "\<not> truthy (pt_description (snd acc))"
  shows "fst (foldl parse_line acc ls) = [] \<and> \<not> truthy (pt_description (snd (foldl parse_line acc ls)))"
  using assms
proof (induction ls arbitrary: acc)
  case Nil
  then show ?case by simp
next
  case (Cons l ls)
  have "fst (parse_line acc l) = [] \<and> \<not> truthy (pt_description (snd (parse_line acc l)))"
    using Cons.prems by (intro parse_line_no_task) auto
  then show ?case using Cons.IH[of "parse_line acc l"] Cons.prems(1) by simp
qed

text \<open>The no-break space is stripped like a blank, and the capitals above \<open>0xC0\<close> are
  lowered: a marker line between no-break spaces opens a task.\<close>

lemma parse_no_break_space:
  "map description (parseTaskBreakdown ([CHR 0xA0] @ ''- Do it'' @ [CHR 0xA0]) ''Ship it'') = [''Do it''] \<and>
   toLowerCase [CHR 0xC9, CHR 0xD7, CHR ''Z''] = [CHR 0xE9, CHR 0xD7, CHR ''z'']"
  by code_simp

text \<open>
  C9. Whatever text the language model answers and whatever the work item is (the empty
  string included), \<open>parseTaskBreakdown\<close> returns at least one task; when no line of the
  answer opens a task, it returns the single fallback task, whose description is the whole
  original work item and whose priority is \<open>medium\<close>.
\<close>

theorem parseTaskBreakdown_nonempty:
  "length (parseTaskBreakdown analysisResult originalDescription) \<ge> 1 \<and>
   ((\<forall>line \<in> set (split CHR 0x0A analysisResult). no_task_line line) \<longrightarrow>
      parseTaskBreakdown analysisResult originalDescription =
        [\<lparr>task_id = ''task-1'', description = originalDescription, priority = ''medium'',
          dependencies = [], assignedAgent = None, status = pending, result = None\<rparr>])"
proof
  show "length (parseTaskBreakdown analysisResult originalDescription) \<ge> 1"
    by (simp add: parseTaskBreakdown_def Let_def Suc_leI)
next
  show "(\<forall>line \<in> set (split CHR 0x0A analysisResult). no_task_line line) \<longrightarrow>
      parseTaskBreakdown analysisResult originalDescription =
        [\<lparr>task_id = ''task-1'', description = originalDescription, priority = ''medium'',
          dependencies = [], assignedAgent = None, status = pending, result = None\<rparr>]"
  proof
    assume h: "\<forall>line \<in> set (split CHR 0x0A analysisResult). no_task_line line"
    let ?acc = "foldl parse_line ([], \<lparr>pt_description = None, pt_priority = None, pt_dependencies = None\<rparr>)
                  (split CHR 0x0A analysisResult)"
    have "fst ?acc = [] \<and> \<not> truthy (pt_description (snd ?acc))"
      using h by (intro foldl_parse_no_task) (auto simp: truthy_def)
    then have "push_current (fst ?acc) (snd ?acc) = []"
      by (simp add: push_current_falsy)
    then show "parseTaskBreakdown analysisResult originalDescription =
        [\<lparr>task_id = ''task-1'', description = originalDescription, priority = ''medium'',
          dependencies = [], assignedAgent = None, status = pending, result = None\<rparr>]"
      by (simp add: parseTaskBreakdown_def Let_def fallback_task_def)
  qed
qed

theorem parseTaskBreakdown_nonempty_witness:
  "length (parseTaskBreakdown (''Sorry.\<newline>'' @ [CHR 0xA0, CHR ''-'', CHR 0xA0]) []) \<ge> 1 \<and>
   parseTaskBreakdown (''Sorry.\<newline>'' @ [CHR 0xA0, CHR ''-'', CHR 0xA0]) [] =
     [\<lparr>task_id = ''task-1'', description = [], priority = ''medium'',
       dependencies = [], assignedAgent = None, status = pending, result = None\<rparr>]"
proof -
  have h: "\<forall>line \<in> set (split CHR 0x0A (''Sorry.\<newline>'' @ [CHR 0xA0, CHR ''-'', CHR 0xA0])). no_task_line line"
    by (simp add: no_task_line_def trim_def is_space_def startsWith_def strip_marker_def)
  show ?thesis
    using h parseTaskBreakdown_nonempty[of "''Sorry.\<newline>'' @ [CHR 0xA0, CHR ''-'', CHR 0xA0]" "[]"] by simp
qed

section \<open>The role selector\<close>

lemma selectBestAgent_member: "selectBestAgent t \<in> set role_keys"
  by (simp add: selectBestAgent_def role_keys_def Let_def)

lemma selectBestAgent_not_lead: "selectBestAgent t \<noteq> ''lead''"
  by (simp add: selectBestAgent_def Let_def)

lemma selectSecondaryAgent_member:
  "primaryAgent \<in> set role_keys \<Longrightarrow> selectSecondaryAgent t primaryAgent \<in> set role_keys"
  by (auto simp: selectSecondaryAgent_def role_keys_def)

lemma sel_text: "description t' = description t \<Longrightarrow> selectBestAgent t' = selectBestAgent t"
  unfolding selectBestAgent_def by (elim ssubst) (rule refl)

lemma lowered_readme: "toLowerCase ''Fix typo in README'' = ''fix typo in readme''"
  by code_simp

lemma included_readme:
  "\<not> str_includes ''fix typo in readme'' ''architecture''"
  "\<not> str_includes ''fix typo in readme'' ''design''"
  "\<not> str_includes ''fix typo in readme'' ''plan''"
  "\<not> str_includes ''fix typo in readme'' ''test''"
  "\<not> str_includes ''fix typo in readme'' ''quality''"
  "\<not> str_includes ''fix typo in readme'' ''bug''"
  "str_includes ''fix typo in readme'' ''readme''"
  by code_simp+

lemma readme_documenter: "description t = ''Fix typo in README'' \<Longrightarrow> selectBestAgent t = ''documenter''"
  by (simp add: selectBestAgent_def Let_def lowered_readme included_readme del: str_includes.simps)

text \<open>
  C8. \<open>selectBestAgent\<close> is a function of the lower-cased task text alone, with a fixed
  precedence in which the first matching class wins: architecture/design/plan give
  \<open>architect\<close>; otherwise quality/bug/test give \<open>tester\<close>; otherwise document/guide/readme
  give \<open>documenter\<close>; otherwise review/improve/refactor give \<open>reviewer\<close>; otherwise
  \<open>developer\<close>. The work item "Fix typo in README" selects \<open>documenter\<close>.
\<close>

theorem selectBestAgent_precedence:
  fixes t :: task
  defines "x \<equiv> toLowerCase (description t)"
  defines "A \<equiv> str_includes x ''architecture'' \<or> str_includes x ''design'' \<or> str_includes x ''plan''"
  defines "Q \<equiv> str_includes x ''quality'' \<or> str_includes x ''bug'' \<or> str_includes x ''test''"
  defines "D \<equiv> str_includes x ''document'' \<or> str_includes x ''guide'' \<or> str_includes x ''readme''"
  defines "R \<equiv> str_includes x ''review'' \<or> str_includes x ''improve'' \<or> str_includes x ''refactor''"
  shows "(A \<longrightarrow> selectBestAgent t = ''architect'') \<and>
         (\<not> A \<and> Q \<longrightarrow> selectBestAgent t = ''tester'') \<and>
         (\<not> A \<and> \<not> Q \<and> D \<longrightarrow> selectBestAgent t = ''documenter'') \<and>
         (\<not> A \<and> \<not> Q \<and> \<not> D \<and> R \<longrightarrow> selectBestAgent t = ''reviewer'') \<and>
         (\<not> A \<and> \<not> Q \<and> \<not> D \<and> \<not> R \<longrightarrow> selectBestAgent t = ''developer'') \<and>
         (\<forall>t'. description t' = description t \<longrightarrow> selectBestAgent t' = selectBestAgent t) \<and>
         (description t = ''Fix typo in README'' \<longrightarrow> selectBestAgent t = ''documenter'')"
proof -
  have sel: "selectBestAgent t =
      (if A then ''architect'' else if Q then ''tester'' else if D then ''documenter''
       else if R then ''reviewer'' else ''developer'')"
    unfolding A_def Q_def D_def R_def x_def selectBestAgent_def Let_def
    by (intro if_cong refl) blast+
  have 1: "A \<longrightarrow> selectBestAgent t = ''architect''" by (simp only: sel) simp
  have 2: "\<not> A \<and> Q \<longrightarrow> selectBestAgent t = ''tester''" by (simp only: sel) simp
  have 3: "\<not> A \<and> \<not> Q \<and> D \<longrightarrow> selectBestAgent t = ''documenter''" by (simp only: sel) simp
  have 4: "\<not> A \<and> \<not> Q \<and> \<not> D \<and> R \<longrightarrow> selectBestAgent t = ''reviewer''" by (simp only: sel) simp
  have 5: "\<not> A \<and> \<not> Q \<and> \<not> D \<and> \<not> R \<longrightarrow> selectBestAgent t = ''developer''" by (simp only: sel) simp
  have 6: "\<forall>t'. description t' = description t \<longrightarrow> selectBestAgent t' = selectBestAgent t"
    using sel_text by blast
  have 7: "description t = ''Fix typo in README'' \<longrightarrow> selectBestAgent t = ''documenter''"
    using readme_documenter by blast
  show ?thesis
    by (intro conjI) (rule 1 2 3 4 5 6 7)+
qed


lemma lowered_examples:
  "toLowerCase ''Plan the TEST suite'' = ''plan the test suite''"
  "toLowerCase ''Review the Bug report'' = ''review the bug report''"
  "toLowerCase ''Refactor the parser'' = ''refactor the parser''"
  "toLowerCase ''Add login form'' = ''add login form''"
  by code_simp+

lemma included_examples:
  "str_includes ''plan the test suite'' ''plan''"
  "\<not> str_includes ''review the bug report'' ''architecture''"
  "\<not> str_includes ''review the bug report'' ''design''"
  "\<not> str_includes ''review the bug report'' ''plan''"
  "str_includes ''review the bug report'' ''bug''"
  "\<not> str_includes ''refactor the parser'' ''architecture''"
  "\<not> str_includes ''refactor the parser'' ''design''"
  "\<not> str_includes ''refactor the parser'' ''plan''"
  "\<not> str_includes ''refactor the parser'' ''quality''"
  "\<not> str_includes ''refactor the parser'' ''bug''"
  "\<not> str_includes ''refactor the parser'' ''test''"
  "\<not> str_includes ''refactor the parser'' ''document''"
  "\<not> str_includes ''refactor the parser'' ''guide''"
  "\<not> str_includes ''refactor the parser'' ''readme''"
  "str_includes ''refactor the parser'' ''refactor''"
  "\<not> str_includes ''add login form'' ''architecture''"
  "\<not> str_includes ''add login form'' ''design''"
  "\<not> str_includes ''add login form'' ''plan''"
  "\<not> str_includes ''add login form'' ''quality''"
  "\<not> str_includes ''add login form'' ''bug''"
  "\<not> str_includes ''add login form'' ''test''"
  "\<not> str_includes ''add login form'' ''document''"
  "\<not> str_includes ''add login form'' ''guide''"
  "\<not> str_includes ''add login form'' ''readme''"
  "\<not> str_includes ''add login form'' ''review''"
  "\<not> str_includes ''add login form'' ''improve''"
  "\<not> str_includes ''add login form'' ''refactor''"
  by code_simp+

lemma described_text: "description (described d) = d"
  by (simp add: described_def fallback_task_def)

theorem selectBestAgent_precedence_witness:
  "selectBestAgent (described ''Plan the TEST suite'') = ''architect'' \<and>
   selectBestAgent (described ''Review the Bug report'') = ''tester'' \<and>
   selectBestAgent (described ''Fix typo in README'') = ''documenter'' \<and>
   selectBestAgent (described ''Refactor the parser'') = ''reviewer'' \<and>
   selectBestAgent (described ''Add login form'') = ''developer''"
proof (intro conjI)
  show "selectBestAgent (described ''Plan the TEST suite'') = ''architect''"
    using selectBestAgent_precedence[of "described ''Plan the TEST suite''"]
    by (simp add: described_text lowered_examples included_examples del: str_includes.simps)
  show "selectBestAgent (described ''Review the Bug report'') = ''tester''"
    using selectBestAgent_precedence[of "described ''Review the Bug report''"]
    by (simp add: described_text lowered_examples included_examples del: str_includes.simps)
  show "selectBestAgent (described ''Fix typo in README'') = ''documenter''"
    using selectBestAgent_precedence[of "described ''Fix typo in README''"]
    by (simp add: described_text del: str_includes.simps)
  show "selectBestAgent (described ''Refactor the parser'') = ''reviewer''"
    using selectBestAgent_precedence[of "described ''Refactor the parser''"]
    by (simp add: described_text lowered_examples included_examples del: str_includes.simps)
  show "selectBestAgent (described ''Add login form'') = ''developer''"
    using selectBestAgent_precedence[of "described ''Add login form''"]
    by (simp add: described_text lowered_examples included_examples del: str_includes.simps)
qed

section \<open>How the steps of a strategy change the run state\<close>

lemma push_event_fields [simp]:
  "tasks (push_event ev a st) = tasks st"
  "calls (push_event ev a st) = calls st"
  "agentContributions (push_event ev a st) = agentContributions st"
  "timeline (push_event ev a st) = timeline st @ [(ev, a)]"
  by (simp_all add: push_event_def)

lemma update_task_fields [simp]:
  "tasks (update_task i f st) = (tasks st)[i := f (tasks st ! i)]"
  "calls (update_task i f st) = calls st"
  "agentContributions (update_task i f st) = agentContributions st"
  "timeline (update_task i f st) = timeline st"
  by (simp_all add: update_task_def)

lemma contribute_fields [simp]:
  "tasks (contribute a tid r st) = tasks st"
  "calls (contribute a tid r st) = calls st"
  "timeline (contribute a tid r st) = timeline st"
  by (simp_all add: contribute_def)

lemma invoke_fields [simp]:
  "fst (invoke env c st) = processTask env (length (calls st)) c"
  "tasks (snd (invoke env c st)) = tasks st"
  "calls (snd (invoke env c st)) = calls st @ [c]"
  "agentContributions (snd (invoke env c st)) = agentContributions st"
  "timeline (snd (invoke env c st)) = timeline st"
  by (simp_all add: invoke_def)

lemma start_task_fields [simp]:
  "tasks (start_task l i a st) = (tasks st)[i := (tasks st ! i)\<lparr>status := in_progress, assignedAgent := Some a\<rparr>]"
  "calls (start_task l i a st) = calls st"
  "agentContributions (start_task l i a st) = agentContributions st"
  "timeline (start_task l i a st) = timeline st @ [(l @ description (tasks st ! i), a)]"
  by (simp_all add: start_task_def)

lemma complete_task_fields [simp]:
  "tasks (complete_task i a r st) = (tasks st)[i := (tasks st ! i)\<lparr>result := Some (Worker_result r), status := completed\<rparr>]"
  "calls (complete_task i a r st) = calls st"
  by (simp_all add: complete_task_def Let_def)

lemma fail_task_fields [simp]:
  "tasks (fail_task i a m st) = (tasks st)[i := (tasks st ! i)\<lparr>status := failed, result := Some (Error_result m)\<rparr>]"
  "calls (fail_task i a m st) = calls st"
  "agentContributions (fail_task i a m st) = agentContributions st"
  by (simp_all add: fail_task_def Let_def)

lemma complete_collaborative_fields [simp]:
  "tasks (complete_collaborative i a b p s st) =
     (tasks st)[i := (tasks st ! i)\<lparr>result := Some (Combined_result p s (ar_result s)), status := completed\<rparr>]"
  "calls (complete_collaborative i a b p s st) = calls st"
  by (simp_all add: complete_collaborative_def Let_def)

lemma advances_refl [simp]: "advances st st"
  by (simp add: advances_def same_work_def)

lemma advances_trans: "advances a b \<Longrightarrow> advances b c \<Longrightarrow> advances a c"
  unfolding advances_def same_work_def terminal_def by (auto; metis)

lemma advances_length: "advances a b \<Longrightarrow> length (tasks b) = length (tasks a)"
  by (simp add: advances_def)

lemma advances_terminal:
  "advances a b \<Longrightarrow> j < length (tasks a) \<Longrightarrow> terminal (status (tasks a ! j)) \<Longrightarrow> terminal (status (tasks b ! j))"
  unfolding advances_def by metis

lemma advances_step:
  assumes "length (tasks b) = length (tasks a)"
    and "\<forall>j < length (tasks a). j \<noteq> i \<longrightarrow> tasks b ! j = tasks a ! j"
    and "i < length (tasks a) \<longrightarrow> same_work (tasks a ! i) (tasks b ! i) \<and> terminal (status (tasks b ! i))"
  shows "advances a b"
  unfolding advances_def using assms by (auto simp: same_work_def)

lemma seq_step_ok:
  "advances st (complete_task i a r (snd (invoke env c (start_task l i a st))))"
  by (rule advances_step[where i=i]) (auto simp: same_work_def terminal_def)

lemma seq_step_fail:
  "advances st (fail_task i a m (snd (invoke env c (start_task l i a st))))"
  by (rule advances_step[where i=i]) (auto simp: same_work_def terminal_def)

lemma executeSequential_loop_advances:
  "advances st (snd (executeSequential_loop env s ps rs st))"
proof (induction ps arbitrary: rs st)
  case Nil
  show ?case by simp
next
  case (Cons i ps)
  show ?case
    by (auto simp: Let_def split: sum.splits intro: advances_trans[OF seq_step_ok Cons.IH] advances_trans[OF seq_step_fail Cons.IH] seq_step_fail)
qed

section \<open>The sort of the hierarchical strategy\<close>

lemma compare_rank: "compare_priority a b \<le> 0 \<longleftrightarrow> rank a \<le> rank b"
  by (simp add: compare_priority_def rank_def)

lemma set_insert_by: "set (insert_by cmp x ys) = insert x (set ys)"
  by (induction ys) auto

lemma length_insert_by: "length (insert_by cmp x ys) = Suc (length ys)"
  by (induction ys) auto

lemma length_sort_by: "length (sort_by cmp xs) = length xs"
  by (induction xs) (auto simp: length_insert_by)

lemma set_sort_by: "set (sort_by cmp xs) = set xs"
  by (induction xs) (auto simp: set_insert_by)

lemma sorted_insert_priority:
  "sorted (map rank ys) \<Longrightarrow> sorted (map rank (insert_by compare_priority x ys))"
  by (induction ys) (auto simp: compare_rank set_insert_by)

lemma sorted_sort_priority: "sorted (map rank (sort_by compare_priority xs))"
  by (induction xs) (auto simp: sorted_insert_priority)

lemma filter_insert_priority:
  "sorted (map rank ys) \<Longrightarrow>
   filter (\<lambda>t. rank t = k) (insert_by compare_priority x ys) =
     (if rank x = k then x # filter (\<lambda>t. rank t = k) ys else filter (\<lambda>t. rank t = k) ys)"
proof (induction ys)
  case Nil
  show ?case by simp
next
  case (Cons y ys)
  then show ?case by (auto simp: compare_rank)
qed

lemma stable_sort_priority:
  "filter (\<lambda>t. rank t = k) (sort_by compare_priority xs) = filter (\<lambda>t. rank t = k) xs"
  by (induction xs) (auto simp: filter_insert_priority sorted_sort_priority)

section \<open>The sequential and the collaborative loop\<close>

lemma executeSequential_loop_retry:
  assumes "retryOnFailure s"
  shows "success (fst (executeSequential_loop env s ps rs st)) \<and>
         (\<forall>j \<in> set ps. j < length (tasks st) \<longrightarrow>
            terminal (status (tasks (snd (executeSequential_loop env s ps rs st)) ! j)))"
proof (induction ps arbitrary: rs st)
  case Nil
  show ?case by simp
next
  case (Cons i ps)
  let ?a = "selectBestAgent (tasks st ! i)"
  let ?st1 = "start_task ''Task started: '' i ?a st"
  let ?c = "worker_call ?a (description (tasks ?st1 ! i)) 8"
  let ?ans = "invoke env ?c ?st1"
  show ?case
  proof (cases "fst ?ans")
    case (Inr r)
    let ?mid = "complete_task i ?a r (snd ?ans)"
    let ?rs = "rs @ [Worker_result r]"
    have eq: "executeSequential_loop env s (i # ps) rs st = executeSequential_loop env s ps ?rs ?mid"
      using Inr by (simp add: Let_def)
    have len: "length (tasks ?mid) = length (tasks st)" by simp
    have ti: "i < length (tasks st) \<Longrightarrow> terminal (status (tasks ?mid ! i))"
      by (simp add: terminal_def)
    have adv: "advances ?mid (snd (executeSequential_loop env s ps ?rs ?mid))"
      by (rule executeSequential_loop_advances)
    show ?thesis
      unfolding eq using Cons.IH[of ?rs ?mid] advances_terminal[OF adv] ti len by auto
  next
    case (Inl m)
    let ?mid = "fail_task i ?a m (snd ?ans)"
    have eq: "executeSequential_loop env s (i # ps) rs st = executeSequential_loop env s ps rs ?mid"
      using Inl assms by (simp add: Let_def)
    have len: "length (tasks ?mid) = length (tasks st)" by simp
    have ti: "i < length (tasks st) \<Longrightarrow> terminal (status (tasks ?mid ! i))"
      by (simp add: terminal_def)
    have adv: "advances ?mid (snd (executeSequential_loop env s ps rs ?mid))"
      by (rule executeSequential_loop_advances)
    show ?thesis
      unfolding eq using Cons.IH[of rs ?mid] advances_terminal[OF adv] ti len by auto
  qed
qed

lemma collab_step_ok:
  "advances st (complete_collaborative i a b p q (snd (invoke env c2 (snd (invoke env c (start_task l i a st))))))"
  by (rule advances_step[where i=i]) (auto simp: same_work_def terminal_def)

lemma collab_step_fail2:
  "advances st (fail_task i a m (snd (invoke env c2 (snd (invoke env c (start_task l i a st))))))"
  by (rule advances_step[where i=i]) (auto simp: same_work_def terminal_def)

lemma executeCollaborative_loop_advances:
  "advances st (snd (executeCollaborative_loop env s ps rs st))"
proof (induction ps arbitrary: rs st)
  case Nil
  show ?case by simp
next
  case (Cons i ps)
  show ?case
    by (auto simp: Let_def split: sum.splits
        intro: advances_trans[OF collab_step_ok Cons.IH] advances_trans[OF seq_step_fail Cons.IH]
               advances_trans[OF collab_step_fail2 Cons.IH] seq_step_fail collab_step_fail2)
qed

section \<open>One batch of the parallel strategy\<close>

lemma same_work_refl [simp]: "same_work t t"
  by (simp add: same_work_def)

lemma same_work_trans: "same_work a b \<Longrightarrow> same_work b c \<Longrightarrow> same_work a c"
  by (simp add: same_work_def)

lemma same_work_select: "same_work t t' \<Longrightarrow> selectBestAgent t' = selectBestAgent t"
  by (rule sel_text) (simp add: same_work_def)

lemma complete_advances: "advances st (complete_task i a r st)"
  by (rule advances_step[where i=i]) (auto simp: same_work_def terminal_def)

lemma fail_advances: "advances st (fail_task i a m st)"
  by (rule advances_step[where i=i]) (auto simp: same_work_def terminal_def)

lemma settle_advances: "advances st (settle p st)"
  by (cases p) (simp add: settle_def complete_advances fail_advances split: sum.splits)

lemma settle_terminal: "fst p < length (tasks st) \<Longrightarrow> terminal (status (tasks (settle p st) ! fst p))"
  by (cases p) (auto simp: settle_def terminal_def split: sum.splits)

lemma settle_calls [simp]: "calls (settle p st) = calls st"
  by (cases p) (auto simp: settle_def split: sum.splits)

lemma settle_all_advances: "advances st (foldl (\<lambda>s p. settle p s) st ps)"
proof (induction ps arbitrary: st)
  case Nil
  show ?case by simp
next
  case (Cons p ps)
  show ?case using advances_trans[OF settle_advances Cons.IH] by simp
qed

lemma settle_all_calls [simp]: "calls (foldl (\<lambda>s p. settle p s) st ps) = calls st"
  by (induction ps arbitrary: st) auto

lemma settle_all_terminal:
  "p \<in> set ps \<Longrightarrow> fst p < length (tasks st) \<Longrightarrow>
   terminal (status (tasks (foldl (\<lambda>s p. settle p s) st ps) ! fst p))"
proof (induction ps arbitrary: st)
  case Nil
  then show ?case by simp
next
  case (Cons q ps)
  have len: "length (tasks (settle q st)) = length (tasks st)"
    using settle_advances advances_length by blast
  show ?case
  proof (cases "p = q")
    case True
    have "terminal (status (tasks (settle q st) ! fst p))"
      using True Cons.prems(2) settle_terminal by blast
    then show ?thesis
      using advances_terminal[OF settle_all_advances, of "fst p" "settle q st" ps] Cons.prems(2) len
      by simp
  next
    case False
    then have "p \<in> set ps" using Cons.prems(1) by simp
    then show ?thesis using Cons.IH[of "settle q st"] Cons.prems(2) len by simp
  qed
qed

lemma dispatch_position [simp]: "fst (fst (dispatch env i st)) = i"
  by (simp add: dispatch_def Let_def)

lemma dispatch_length [simp]: "length (tasks (snd (dispatch env i st))) = length (tasks st)"
  by (simp add: dispatch_def Let_def)

lemma dispatch_same_work: "same_work (tasks st ! j) (tasks (snd (dispatch env i st)) ! j)"
  by (cases "i < length (tasks st)"; cases "j = i")
     (simp_all add: dispatch_def Let_def same_work_def list_update_beyond)

lemma dispatch_other: "j \<noteq> i \<Longrightarrow> tasks (snd (dispatch env i st)) ! j = tasks st ! j"
  by (simp add: dispatch_def Let_def)

lemma updated_description:
  "description ((xs[i := (xs ! i)\<lparr>status := v, assignedAgent := w\<rparr>]) ! i) = description (xs ! i)"
  by (cases "i < length xs") (simp_all add: list_update_beyond)

lemma dispatch_calls:
  "calls (snd (dispatch env i st)) =
     calls st @ [worker_call (selectBestAgent (tasks st ! i)) (description (tasks st ! i)) 8]"
  by (simp add: dispatch_def Let_def updated_description)

lemma dispatch_all_positions [simp]: "map fst (fst (dispatch_all env ps st)) = ps"
  by (induction ps arbitrary: st) (auto simp: Let_def)

lemma dispatch_all_length [simp]: "length (tasks (snd (dispatch_all env ps st))) = length (tasks st)"
  by (induction ps arbitrary: st) (auto simp: Let_def)

lemma dispatch_all_same_work: "same_work (tasks st ! j) (tasks (snd (dispatch_all env ps st)) ! j)"
proof (induction ps arbitrary: st)
  case Nil
  show ?case by simp
next
  case (Cons i ps)
  show ?case
    using same_work_trans[OF dispatch_same_work Cons.IH] by (simp add: Let_def)
qed

lemma dispatch_all_other: "j \<notin> set ps \<Longrightarrow> tasks (snd (dispatch_all env ps st)) ! j = tasks st ! j"
  by (induction ps arbitrary: st) (auto simp: Let_def dispatch_other)

lemma dispatch_all_calls:
  "calls (snd (dispatch_all env ps st)) =
     calls st @ map (\<lambda>i. worker_call (selectBestAgent (tasks st ! i)) (description (tasks st ! i)) 8) ps"
proof (induction ps arbitrary: st)
  case Nil
  show ?case by simp
next
  case (Cons i ps)
  let ?st1 = "snd (dispatch env i st)"
  have same: "\<And>j. worker_call (selectBestAgent (tasks ?st1 ! j)) (description (tasks ?st1 ! j)) 8 =
                   worker_call (selectBestAgent (tasks st ! j)) (description (tasks st ! j)) 8"
  proof -
    fix j
    have sw: "same_work (tasks st ! j) (tasks ?st1 ! j)" by (rule dispatch_same_work)
    then have "description (tasks ?st1 ! j) = description (tasks st ! j)" by (simp add: same_work_def)
    then show "worker_call (selectBestAgent (tasks ?st1 ! j)) (description (tasks ?st1 ! j)) 8 =
               worker_call (selectBestAgent (tasks st ! j)) (description (tasks st ! j)) 8"
      using same_work_select[OF sw] by simp
  qed
  show ?case
    using Cons.IH[of ?st1] by (simp add: Let_def dispatch_calls same)
qed

lemma run_batch_length [simp]: "length (tasks (snd (run_batch env ps st))) = length (tasks st)"
  using advances_length[OF settle_all_advances] by (simp add: run_batch_def Let_def)

lemma run_batch_terminal:
  assumes "j \<in> set ps" "j < length (tasks st)"
  shows "terminal (status (tasks (snd (run_batch env ps st)) ! j))"
proof -
  let ?ds = "dispatch_all env ps st"
  let ?order = "sort_key (\<lambda>p. finish_rank env (fst (snd p))) (fst ?ds)"
  have "set ps = fst ` set (fst ?ds)" by (metis dispatch_all_positions set_map)
  then obtain p where p: "p \<in> set (fst ?ds)" "fst p = j" using assms(1) by auto
  then have "p \<in> set ?order" by simp
  moreover have "fst p < length (tasks (snd ?ds))" using p assms(2) by simp
  ultimately have "terminal (status (tasks (foldl (\<lambda>s p. settle p s) (snd ?ds) ?order) ! fst p))"
    by (rule settle_all_terminal)
  then show ?thesis using p by (simp add: run_batch_def Let_def)
qed

lemma run_batch_advances: "advances st (snd (run_batch env ps st))"
proof -
  let ?ds = "dispatch_all env ps st"
  let ?order = "sort_key (\<lambda>p. finish_rank env (fst (snd p))) (fst ?ds)"
  let ?st2 = "foldl (\<lambda>s p. settle p s) (snd ?ds) ?order"
  have st2: "snd (run_batch env ps st) = ?st2" by (simp add: run_batch_def Let_def)
  have adv: "advances (snd ?ds) ?st2" by (rule settle_all_advances)
  have len: "length (tasks ?st2) = length (tasks st)"
    using advances_length[OF adv] by simp
  have "same_work (tasks st ! j) (tasks ?st2 ! j) \<and>
        (status (tasks ?st2 ! j) = status (tasks st ! j) \<or> terminal (status (tasks ?st2 ! j)))"
    if j: "j < length (tasks st)" for j
  proof
    have "same_work (tasks (snd ?ds) ! j) (tasks ?st2 ! j)"
      using adv j unfolding advances_def by simp
    then show "same_work (tasks st ! j) (tasks ?st2 ! j)"
      using same_work_trans[OF dispatch_all_same_work] by blast
  next
    show "status (tasks ?st2 ! j) = status (tasks st ! j) \<or> terminal (status (tasks ?st2 ! j))"
    proof (cases "j \<in> set ps")
      case True
      then show ?thesis using run_batch_terminal[OF True j, of env] st2 by simp
    next
      case False
      then have "tasks (snd ?ds) ! j = tasks st ! j" by (rule dispatch_all_other)
      then show ?thesis using adv j unfolding advances_def by auto
    qed
  qed
  then show ?thesis unfolding st2 advances_def using len by blast
qed

lemma run_batch_calls:
  "calls (snd (run_batch env ps st)) =
     calls st @ map (\<lambda>i. worker_call (selectBestAgent (tasks st ! i)) (description (tasks st ! i)) 8) ps"
  by (simp add: run_batch_def Let_def dispatch_all_calls)

text \<open>What a batch leaves in the tasks it ran, and the outcomes it hands to the loop.\<close>

lemma settle_settled:
  "fst p < length (tasks st) \<Longrightarrow> settled_as (snd (snd (snd p))) (tasks (settle p st) ! fst p)"
  by (cases p) (auto simp: settle_def settled_as_def split: sum.splits)

lemma settle_other: "j \<noteq> fst p \<Longrightarrow> tasks (settle p st) ! j = tasks st ! j"
  by (cases p) (auto simp: settle_def split: sum.splits)

lemma settle_length [simp]: "length (tasks (settle p st)) = length (tasks st)"
  by (cases p) (auto simp: settle_def split: sum.splits)

lemma settle_all_other:
  "j \<notin> fst ` set ps \<Longrightarrow> tasks (foldl (\<lambda>s p. settle p s) st ps) ! j = tasks st ! j"
  by (induction ps arbitrary: st) (auto simp: settle_other)

lemma settle_all_settled:
  "distinct (map fst ps) \<Longrightarrow> p \<in> set ps \<Longrightarrow> fst p < length (tasks st) \<Longrightarrow>
   settled_as (snd (snd (snd p))) (tasks (foldl (\<lambda>s p. settle p s) st ps) ! fst p)"
proof (induction ps arbitrary: st)
  case Nil
  then show ?case by simp
next
  case (Cons q ps)
  show ?case
  proof (cases "p = q")
    case True
    have "fst q \<notin> fst ` set ps" using Cons.prems(1) by simp
    then have "tasks (foldl (\<lambda>s p. settle p s) (settle q st) ps) ! fst q = tasks (settle q st) ! fst q"
      by (rule settle_all_other)
    then show ?thesis using True settle_settled[OF Cons.prems(3)] by simp
  next
    case False
    then have "p \<in> set ps" using Cons.prems(2) by simp
    then show ?thesis using Cons.IH[of "settle q st"] Cons.prems by simp
  qed
qed

lemma insort_key_positions:
  "set (map g (insort_key f x xs)) = insert (g x) (set (map g xs)) \<and>
   (distinct (map g (insort_key f x xs)) \<longleftrightarrow> g x \<notin> set (map g xs) \<and> distinct (map g xs))"
  by (induction xs) auto

lemma sort_key_positions:
  "set (map g (sort_key f xs)) = set (map g xs) \<and>
   (distinct (map g (sort_key f xs)) \<longleftrightarrow> distinct (map g xs))"
  by (induction xs) (simp_all add: insort_key_positions del: set_map)

lemma sort_key_distinct_map: "distinct (map g (sort_key f xs)) = distinct (map g xs)"
  using sort_key_positions[of g f xs] by blast

lemma dispatch_call_same:
  "worker_call (selectBestAgent (tasks (snd (dispatch env i st)) ! j))
     (description (tasks (snd (dispatch env i st)) ! j)) 8 =
   worker_call (selectBestAgent (tasks st ! j)) (description (tasks st ! j)) 8"
proof -
  have sw: "same_work (tasks st ! j) (tasks (snd (dispatch env i st)) ! j)" by (rule dispatch_same_work)
  then have "description (tasks (snd (dispatch env i st)) ! j) = description (tasks st ! j)"
    by (simp add: same_work_def)
  then show ?thesis using same_work_select[OF sw] by simp
qed

lemma dispatch_outcome:
  "snd (snd (snd (fst (dispatch env i st)))) =
     processTask env (length (calls st))
       (worker_call (selectBestAgent (tasks st ! i)) (description (tasks st ! i)) 8)"
  by (simp add: dispatch_def Let_def updated_description)

lemma dispatch_all_outcomes:
  "k < length b \<Longrightarrow>
   snd (snd (snd (fst (dispatch_all env b st) ! k))) =
     processTask env (length (calls st) + k)
       (worker_call (selectBestAgent (tasks st ! (b ! k))) (description (tasks st ! (b ! k))) 8)"
proof (induction b arbitrary: k st)
  case Nil
  then show ?case by simp
next
  case (Cons i b)
  show ?case
  proof (cases k)
    case 0
    then show ?thesis by (simp add: Let_def dispatch_outcome)
  next
    case (Suc k')
    then have "k' < length b" using Cons.prems by simp
    from Cons.IH[OF this, of "snd (dispatch env i st)"] show ?thesis
      unfolding dispatch_call_same using Suc by (simp add: Let_def dispatch_calls)
  qed
qed

lemma run_batch_count [simp]: "length (fst (run_batch env b st)) = length b"
proof -
  have "length (fst (dispatch_all env b st)) = length b" by (metis dispatch_all_positions length_map)
  then show ?thesis by (simp add: run_batch_def Let_def)
qed

lemma run_batch_outcomes:
  assumes "k < length b"
  shows "fst (run_batch env b st) ! k =
           processTask env (length (calls st) + k) (calls (snd (run_batch env b st)) ! (length (calls st) + k))"
proof -
  have len: "length (fst (dispatch_all env b st)) = length b" by (metis dispatch_all_positions length_map)
  have "fst (run_batch env b st) ! k = snd (snd (snd (fst (dispatch_all env b st) ! k)))"
    using assms len by (simp add: run_batch_def Let_def)
  then show ?thesis using assms by (simp add: dispatch_all_outcomes run_batch_calls)
qed

lemma run_batch_settled:
  assumes "distinct b" "\<forall>j \<in> set b. j < length (tasks st)" "k < length b"
  shows "settled_as (fst (run_batch env b st) ! k) (tasks (snd (run_batch env b st)) ! (b ! k))"
proof -
  let ?ds = "dispatch_all env b st"
  let ?order = "sort_key (\<lambda>p. finish_rank env (fst (snd p))) (fst ?ds)"
  let ?p = "fst ?ds ! k"
  have len: "length (fst ?ds) = length b" by (metis dispatch_all_positions length_map)
  have pos: "fst ?p = b ! k" using assms(3) len by (metis dispatch_all_positions nth_map)
  have "distinct (map fst (fst ?ds))" using assms(1) by (simp only: dispatch_all_positions)
  then have "distinct (map fst ?order)" by (simp only: sort_key_distinct_map)
  moreover have "?p \<in> set ?order" using assms(3) len by simp
  moreover have "fst ?p < length (tasks (snd ?ds))" using pos assms(2,3) by simp
  ultimately have "settled_as (snd (snd (snd ?p))) (tasks (foldl (\<lambda>s p. settle p s) (snd ?ds) ?order) ! fst ?p)"
    by (rule settle_all_settled)
  then show ?thesis using pos assms(3) len by (simp add: run_batch_def Let_def)
qed

lemma run_batch_other:
  assumes "j \<notin> set b"
  shows "tasks (snd (run_batch env b st)) ! j = tasks st ! j"
proof -
  let ?ds = "dispatch_all env b st"
  let ?order = "sort_key (\<lambda>p. finish_rank env (fst (snd p))) (fst ?ds)"
  have "fst ` set ?order = set b" by (metis dispatch_all_positions set_map set_sort)
  then have "j \<notin> fst ` set ?order" using assms by simp
  then have "tasks (foldl (\<lambda>s p. settle p s) (snd ?ds) ?order) ! j = tasks (snd ?ds) ! j"
    by (rule settle_all_other)
  then show ?thesis using dispatch_all_other[OF assms] by (simp add: run_batch_def Let_def)
qed

section \<open>One iteration of the collaborative and of the hierarchical loop\<close>

lemma executeCollaborative_step:
  "\<exists>mid rs'. advances st mid \<and> (i < length (tasks st) \<longrightarrow> terminal (status (tasks mid ! i))) \<and>
     (executeCollaborative_loop env s (i # ps) rs st = executeCollaborative_loop env s ps rs' mid \<or>
      \<not> retryOnFailure s \<and>
        executeCollaborative_loop env s (i # ps) rs st =
          (\<lparr>success = False, results = rs, validationIssues = None\<rparr>, mid))"
proof -
  let ?a = "selectBestAgent (tasks st ! i)"
  let ?b = "selectSecondaryAgent (tasks st ! i) ?a"
  let ?st1 = "start_task ''Collaborative task started: '' i ?a st"
  let ?c1 = "worker_call ?a (description (tasks ?st1 ! i)) 5"
  let ?first = "invoke env ?c1 ?st1"
  show ?thesis
  proof (cases "fst ?first")
    case (Inl m)
    let ?mid = "fail_task i ?a m (snd ?first)"
    have adv: "advances st ?mid" by (rule seq_step_fail)
    have ti: "i < length (tasks st) \<longrightarrow> terminal (status (tasks ?mid ! i))"
      by (simp add: terminal_def)
    have "executeCollaborative_loop env s (i # ps) rs st =
            (if \<not> retryOnFailure s then (\<lparr>success = False, results = rs, validationIssues = None\<rparr>, ?mid)
             else executeCollaborative_loop env s ps rs ?mid)"
      using Inl by (simp add: Let_def)
    then show ?thesis using adv ti by (cases "retryOnFailure s") auto
  next
    case (Inr p)
    let ?c2 = "worker_call ?b (review_prompt (tasks ?st1 ! i) p) 5"
    let ?second = "invoke env ?c2 (snd ?first)"
    show ?thesis
    proof (cases "fst ?second")
      case (Inl m)
      let ?mid = "fail_task i ?a m (snd ?second)"
      have adv: "advances st ?mid" by (rule collab_step_fail2)
      have ti: "i < length (tasks st) \<longrightarrow> terminal (status (tasks ?mid ! i))"
        by (simp add: terminal_def)
      have "executeCollaborative_loop env s (i # ps) rs st =
            (if \<not> retryOnFailure s then (\<lparr>success = False, results = rs, validationIssues = None\<rparr>, ?mid)
             else executeCollaborative_loop env s ps rs ?mid)"
        using Inl \<open>fst ?first = Inr p\<close> by (simp add: Let_def)
      then show ?thesis using adv ti by (cases "retryOnFailure s") auto
    next
      case (Inr q)
      let ?mid = "complete_collaborative i ?a ?b p q (snd ?second)"
      have adv: "advances st ?mid" by (rule collab_step_ok)
      have ti: "i < length (tasks st) \<longrightarrow> terminal (status (tasks ?mid ! i))"
        by (simp add: terminal_def)
      have "executeCollaborative_loop env s (i # ps) rs st =
            executeCollaborative_loop env s ps (rs @ [Combined_result p q (ar_result q)]) ?mid"
        using Inr \<open>fst ?first = Inr p\<close> by (simp add: Let_def)
      then show ?thesis using adv ti by auto
    qed
  qed
qed

lemma executeCollaborative_loop_retry:
  assumes "retryOnFailure s"
  shows "success (fst (executeCollaborative_loop env s ps rs st)) \<and>
         (\<forall>j \<in> set ps. j < length (tasks st) \<longrightarrow>
            terminal (status (tasks (snd (executeCollaborative_loop env s ps rs st)) ! j)))"
proof (induction ps arbitrary: rs st)
  case Nil
  show ?case by simp
next
  case (Cons i ps)
  obtain mid rs' where adv: "advances st mid"
    and ti: "i < length (tasks st) \<longrightarrow> terminal (status (tasks mid ! i))"
    and eq: "executeCollaborative_loop env s (i # ps) rs st = executeCollaborative_loop env s ps rs' mid"
    using executeCollaborative_step[of st i env s ps rs] assms by blast
  have len: "length (tasks mid) = length (tasks st)" using adv by (rule advances_length)
  have adv2: "advances mid (snd (executeCollaborative_loop env s ps rs' mid))"
    by (rule executeCollaborative_loop_advances)
  show ?case
    unfolding eq using Cons.IH[of rs' mid] advances_terminal[OF adv2] ti len by auto
qed

lemma guided_prompt_same: "description t' = description t \<Longrightarrow> guided_prompt t' g = guided_prompt t g"
  by (simp add: guided_prompt_def)

lemma executeHierarchical_step:
  fixes st i
  defines "a \<equiv> selectBestAgent (tasks st ! i)"
  defines "gc \<equiv> guidance_call (tasks st ! i) a"
  shows
  "(\<exists>m. processTask env (length (calls st)) gc = Inl m \<and>
        executeHierarchical_loop env s (i # ps) rs st = Inl m) \<or>
   (\<exists>g mid rs'. processTask env (length (calls st)) gc = Inr g \<and> advances st mid \<and>
       (i < length (tasks st) \<longrightarrow> terminal (status (tasks mid ! i))) \<and>
       calls mid = calls st @ consultation (tasks st ! i) g \<and>
       (executeHierarchical_loop env s (i # ps) rs st = executeHierarchical_loop env s ps rs' mid \<or>
        \<not> retryOnFailure s \<and>
          executeHierarchical_loop env s (i # ps) rs st =
            Inr (\<lparr>success = False, results = rs, validationIssues = None\<rparr>, mid)))"
proof (cases "processTask env (length (calls st)) gc")
  case (Inl m)
  then have "executeHierarchical_loop env s (i # ps) rs st = Inl m"
    by (simp add: Let_def a_def gc_def)
  then show ?thesis using Inl by blast
next
  case (Inr g)
  let ?consulted = "invoke env gc st"
  let ?st1 = "push_event (''Guidance provided for: '' @ description (tasks st ! i)) ''lead'' (snd ?consulted)"
  let ?st2 = "start_task ''Task started: '' i a ?st1"
  let ?wc = "worker_call a (guided_prompt (tasks ?st2 ! i) g) 8"
  let ?answer = "invoke env ?wc ?st2"
  have wc: "?wc = worker_call a (guided_prompt (tasks st ! i) g) 8"
    by (simp add: guided_prompt_def updated_description)
  have cs: "calls (snd ?answer) = calls st @ consultation (tasks st ! i) g"
    unfolding wc by (simp add: consultation_def a_def gc_def)
  show ?thesis
  proof (cases "fst ?answer")
    case (Inr r)
    let ?mid = "complete_task i a r (snd ?answer)"
    have adv: "advances st ?mid"
      by (rule advances_step[where i=i]) (auto simp: same_work_def terminal_def)
    have ti: "i < length (tasks st) \<longrightarrow> terminal (status (tasks ?mid ! i))"
      by (simp add: terminal_def)
    have cm: "calls ?mid = calls st @ consultation (tasks st ! i) g" using cs by simp
    have "executeHierarchical_loop env s (i # ps) rs st =
            executeHierarchical_loop env s ps (rs @ [Worker_result r]) ?mid"
      using Inr \<open>processTask env (length (calls st)) gc = Inr g\<close>
      by (simp add: Let_def a_def gc_def)
    then show ?thesis using adv ti cm \<open>processTask env (length (calls st)) gc = Inr g\<close> by blast
  next
    case (Inl m)
    let ?mid = "fail_task i a m (snd ?answer)"
    have adv: "advances st ?mid"
      by (rule advances_step[where i=i]) (auto simp: same_work_def terminal_def)
    have ti: "i < length (tasks st) \<longrightarrow> terminal (status (tasks ?mid ! i))"
      by (simp add: terminal_def)
    have cm: "calls ?mid = calls st @ consultation (tasks st ! i) g" using cs by simp
    have "executeHierarchical_loop env s (i # ps) rs st =
            (if \<not> retryOnFailure s then Inr (\<lparr>success = False, results = rs, validationIssues = None\<rparr>, ?mid)
             else executeHierarchical_loop env s ps rs ?mid)"
      using Inl \<open>processTask env (length (calls st)) gc = Inr g\<close>
      by (simp add: Let_def a_def gc_def)
    then show ?thesis using adv ti cm \<open>processTask env (length (calls st)) gc = Inr g\<close>
      by (cases "retryOnFailure s") auto
  qed
qed

section \<open>The hierarchical loop\<close>

lemma executeHierarchical_cases [case_names thrown continue abort]:
  obtains
    (thrown) m where
      "processTask env (length (calls st))
         (guidance_call (tasks st ! i) (selectBestAgent (tasks st ! i))) = Inl m"
      "executeHierarchical_loop env s (i # ps) rs st = Inl m"
  | (continue) g mid rs' where
      "processTask env (length (calls st))
         (guidance_call (tasks st ! i) (selectBestAgent (tasks st ! i))) = Inr g"
      "advances st mid"
      "i < length (tasks st) \<longrightarrow> terminal (status (tasks mid ! i))"
      "calls mid = calls st @ consultation (tasks st ! i) g"
      "executeHierarchical_loop env s (i # ps) rs st = executeHierarchical_loop env s ps rs' mid"
  | (abort) g mid where
      "processTask env (length (calls st))
         (guidance_call (tasks st ! i) (selectBestAgent (tasks st ! i))) = Inr g"
      "advances st mid"
      "i < length (tasks st) \<longrightarrow> terminal (status (tasks mid ! i))"
      "calls mid = calls st @ consultation (tasks st ! i) g"
      "\<not> retryOnFailure s"
      "executeHierarchical_loop env s (i # ps) rs st =
         Inr (\<lparr>success = False, results = rs, validationIssues = None\<rparr>, mid)"
  using executeHierarchical_step[of env st i s ps rs] by blast

lemma executeHierarchical_loop_advances:
  "executeHierarchical_loop env s ps rs st = Inr (res, st') \<Longrightarrow> advances st st'"
proof (induction ps arbitrary: rs st)
  case Nil
  then show ?case by simp
next
  case (Cons i ps)
  show ?case
  proof (cases rule: executeHierarchical_cases[of env st i s ps rs])
    case (thrown m)
    then show ?thesis using Cons.prems by (simp del: executeHierarchical_loop.simps)
  next
    case (continue g mid rs')
    then have "executeHierarchical_loop env s ps rs' mid = Inr (res, st')"
      using Cons.prems by (simp del: executeHierarchical_loop.simps)
    then have "advances mid st'" by (rule Cons.IH)
    then show ?thesis using continue(2) advances_trans by blast
  next
    case (abort g mid)
    then have "mid = st'" using Cons.prems by (simp del: executeHierarchical_loop.simps)
    then show ?thesis using abort(2) by simp
  qed
qed

lemma executeHierarchical_loop_retry:
  assumes "retryOnFailure s"
  shows "executeHierarchical_loop env s ps rs st = Inr (res, st') \<Longrightarrow>
         success res \<and> (\<forall>j \<in> set ps. j < length (tasks st) \<longrightarrow> terminal (status (tasks st' ! j)))"
proof (induction ps arbitrary: rs st)
  case Nil
  then show ?case by auto
next
  case (Cons i ps)
  show ?case
  proof (cases rule: executeHierarchical_cases[of env st i s ps rs])
    case (thrown m)
    then show ?thesis using Cons.prems by (simp del: executeHierarchical_loop.simps)
  next
    case (continue g mid rs')
    then have eq: "executeHierarchical_loop env s ps rs' mid = Inr (res, st')"
      using Cons.prems by (simp del: executeHierarchical_loop.simps)
    have len: "length (tasks mid) = length (tasks st)" using continue(2) by (rule advances_length)
    have adv2: "advances mid st'" using eq by (rule executeHierarchical_loop_advances)
    show ?thesis
      using Cons.IH[OF eq] advances_terminal[OF adv2] continue(3) len by auto
  next
    case (abort g mid)
    then show ?thesis using assms by simp
  qed
qed

lemma executeHierarchical_loop_returns:
  assumes "\<forall>n c. call_agent c = ''lead'' \<longrightarrow> (\<exists>g. processTask env n c = Inr g)"
  shows "\<exists>r. executeHierarchical_loop env s ps rs st = Inr r"
proof (induction ps arbitrary: rs st)
  case Nil
  show ?case by simp
next
  case (Cons i ps)
  have lead: "call_agent (guidance_call (tasks st ! i) (selectBestAgent (tasks st ! i))) = ''lead''"
    by (simp add: guidance_call_def)
  show ?case
  proof (cases rule: executeHierarchical_cases[of env st i s ps rs])
    case (thrown m)
    then show ?thesis using assms lead by (metis sum.distinct(1))
  next
    case (continue g mid rs')
    then show ?thesis using Cons.IH[of rs' mid] by (simp del: executeHierarchical_loop.simps)
  next
    case (abort g mid)
    then show ?thesis by (simp del: executeHierarchical_loop.simps)
  qed
qed

lemma consultation_same: "same_work t t' \<Longrightarrow> consultation t' g = consultation t g"
  using same_work_select[of t t']
  by (simp add: consultation_def guidance_call_def guided_prompt_def same_work_def)

lemma executeHierarchical_loop_calls:
  assumes "executeHierarchical_loop env s ps rs st = Inr (res, st')"
    and "\<forall>i \<in> set ps. i < length (tasks st)"
  shows "\<exists>gs. length gs \<le> length ps \<and> (success res \<longrightarrow> length gs = length ps) \<and>
           calls st' = calls st @ concat (map (\<lambda>(i, g). consultation (tasks st ! i) g) (zip ps gs)) \<and>
           (\<forall>k < length gs.
              processTask env (length (calls st) + 2 * k)
                (guidance_call (tasks st ! (ps ! k)) (selectBestAgent (tasks st ! (ps ! k)))) = Inr (gs ! k))"
  using assms
proof (induction ps arbitrary: rs st)
  case Nil
  then show ?case by simp
next
  case (Cons i ps)
  show ?case
  proof (cases rule: executeHierarchical_cases[of env st i s ps rs])
    case (thrown m)
    then show ?thesis using Cons.prems by (simp del: executeHierarchical_loop.simps)
  next
    case (continue g mid rs')
    then have eq: "executeHierarchical_loop env s ps rs' mid = Inr (res, st')"
      using Cons.prems by (simp del: executeHierarchical_loop.simps)
    have len: "length (tasks mid) = length (tasks st)" using continue(2) by (rule advances_length)
    have same: "\<And>j. j < length (tasks st) \<Longrightarrow> same_work (tasks st ! j) (tasks mid ! j)"
      using continue(2) unfolding advances_def by simp
    from Cons.IH[OF eq] Cons.prems(2) len
    obtain gs where gs: "length gs \<le> length ps" "success res \<longrightarrow> length gs = length ps"
      "calls st' = calls mid @ concat (map (\<lambda>(i, g). consultation (tasks mid ! i) g) (zip ps gs))"
      "\<forall>k < length gs. processTask env (length (calls mid) + 2 * k)
                (guidance_call (tasks mid ! (ps ! k)) (selectBestAgent (tasks mid ! (ps ! k)))) = Inr (gs ! k)"
      by auto
    have m1: "map (\<lambda>(i, g). consultation (tasks mid ! i) g) (zip ps gs) =
              map (\<lambda>(i, g). consultation (tasks st ! i) g) (zip ps gs)"
    proof (rule map_cong[OF refl])
      fix x assume "x \<in> set (zip ps gs)"
      then have "fst x \<in> set ps" by (metis in_set_zipE prod.collapse)
      then have "fst x < length (tasks st)" using Cons.prems(2) by simp
      then show "(case x of (i, g) \<Rightarrow> consultation (tasks mid ! i) g) =
                 (case x of (i, g) \<Rightarrow> consultation (tasks st ! i) g)"
        using consultation_same[OF same] by (cases x) simp
    qed
    have cl: "length (calls mid) = length (calls st) + 2"
      using continue(4) by (simp add: consultation_def)
    have calls: "calls st' = calls st @ concat (map (\<lambda>(i, g). consultation (tasks st ! i) g) (zip (i # ps) (g # gs)))"
      using gs(3) continue(4) m1 by simp
    have answers: "processTask env (length (calls st) + 2 * k)
                (guidance_call (tasks st ! ((i # ps) ! k)) (selectBestAgent (tasks st ! ((i # ps) ! k)))) = Inr ((g # gs) ! k)"
      if k: "k < length (g # gs)" for k
    proof (cases k)
      case 0
      then show ?thesis using continue(1) by simp
    next
      case (Suc k')
      then have k': "k' < length gs" using k by simp
      then have "ps ! k' \<in> set ps" using gs(1) by simp
      then have "ps ! k' < length (tasks st)" using Cons.prems(2) by simp
      then have sw: "same_work (tasks st ! (ps ! k')) (tasks mid ! (ps ! k'))" by (rule same)
      have "guidance_call (tasks mid ! (ps ! k')) (selectBestAgent (tasks mid ! (ps ! k'))) =
            guidance_call (tasks st ! (ps ! k')) (selectBestAgent (tasks st ! (ps ! k')))"
        using consultation_same[OF sw] by (simp add: consultation_def)
      moreover have "processTask env (length (calls mid) + 2 * k')
                (guidance_call (tasks mid ! (ps ! k')) (selectBestAgent (tasks mid ! (ps ! k')))) = Inr (gs ! k')"
        using gs(4) k' by blast
      ultimately show ?thesis using Suc cl by simp
    qed
    show ?thesis
      apply (rule exI[of _ "g # gs"])
      using gs(1,2) calls answers by simp
  next
    case (abort g mid)
    then have res: "res = \<lparr>success = False, results = rs, validationIssues = None\<rparr>" "st' = mid"
      using Cons.prems by (simp_all del: executeHierarchical_loop.simps)
    show ?thesis
      apply (rule exI[of _ "[g]"])
      using res abort(1,4) by simp
  qed
qed

section \<open>The parallel loop\<close>

lemma collect_results_retry: "\<exists>rs1. collect_results True os rs = Inr rs1"
  by (induction True os rs rule: collect_results.induct) auto

lemma collect_results_abort: "collect_results retry os rs = Inl rs1 \<Longrightarrow> \<not> retry \<and> (\<exists>m. Inl m \<in> set os)"
  by (induction retry os rs rule: collect_results.induct) (auto split: if_splits)

lemma slice_bounds_batch:
  assumes "0 \<le> i" "i < int n" "0 < mc"
  shows "slice_bounds n i (i + mc) = (nat i, min (nat i + nat mc) n)"
  using assms by (auto simp: slice_bounds_def Let_def min_def nat_add_distrib)

lemma slice_bounds_le: "snd (slice_bounds n s e) \<le> n"
  by (auto simp: slice_bounds_def Let_def)

lemma contiguous_batches_upt:
  assumes "0 < k" "a < n"
  shows "contiguous_batches k [a..<n] = [a..<min (a + k) n] # contiguous_batches k [a + k..<n]"
  using assms by (subst contiguous_batches.simps) (simp add: min_def)

lemma contiguous_batches_Nil [simp]: "contiguous_batches k [] = []"
  by (subst contiguous_batches.simps) simp

lemma executeParallel_loop_batches:
  assumes "0 < maxConcurrency s" "0 \<le> i"
  shows "executeParallel_loop env s i rs st =
           Some (run_batches env (retryOnFailure s)
                   (contiguous_batches (nat (maxConcurrency s)) [nat i..<length (tasks st)]) rs st)"
  using assms(2)
proof (induction "length (tasks st) - nat i" arbitrary: i rs st rule: less_induct)
  case less
  let ?n = "length (tasks st)"
  let ?mc = "maxConcurrency s"
  show ?case
  proof (cases "i < int ?n")
    case False
    then have "[nat i..<?n] = []" using less.prems by simp
    then show ?thesis using False by (subst executeParallel_loop.simps) simp
  next
    case True
    let ?b = "[nat i..<min (nat i + nat ?mc) ?n]"
    let ?settled = "run_batch env ?b st"
    have a: "nat i < ?n" using True less.prems by simp
    have cb: "contiguous_batches (nat ?mc) [nat i..<?n] =
                ?b # contiguous_batches (nat ?mc) [nat i + nat ?mc..<?n]"
      using assms(1) a by (intro contiguous_batches_upt) simp_all
    have len: "length (tasks (snd ?settled)) = ?n" by simp
    have nxt: "nat (i + ?mc) = nat i + nat ?mc" using assms(1) less.prems by (simp add: nat_add_distrib)
    have unfold: "executeParallel_loop env s i rs st =
        (case collect_results (retryOnFailure s) (fst ?settled) rs of
           Inl rs1 \<Rightarrow> Some (\<lparr>success = False, results = rs1, validationIssues = None\<rparr>, snd ?settled)
         | Inr rs1 \<Rightarrow> executeParallel_loop env s (i + ?mc) rs1 (snd ?settled))"
      using True slice_bounds_batch[OF less.prems True assms(1)]
      by (subst executeParallel_loop.simps) (simp add: Let_def cong: sum.case_cong)
    show ?thesis
    proof (cases "collect_results (retryOnFailure s) (fst ?settled) rs")
      case (Inl rs1)
      then show ?thesis unfolding unfold cb by (simp add: Let_def)
    next
      case (Inr rs1)
      have "length (tasks (snd ?settled)) - nat (i + ?mc) < ?n - nat i"
        using a assms(1) nxt by simp
      moreover have "0 \<le> i + ?mc" using assms(1) less.prems by simp
      ultimately have "executeParallel_loop env s (i + ?mc) rs1 (snd ?settled) =
           Some (run_batches env (retryOnFailure s)
                   (contiguous_batches (nat ?mc) [nat (i + ?mc)..<length (tasks (snd ?settled))])
                   rs1 (snd ?settled))"
        by (rule less.hyps)
      then show ?thesis unfolding unfold cb using Inr nxt by (simp add: Let_def)
    qed
  qed
qed

lemma run_batches_advances: "advances st (snd (run_batches env retry bs rs st))"
proof (induction bs arbitrary: rs st)
  case Nil
  show ?case by simp
next
  case (Cons b bs)
  show ?case
    using advances_trans[OF run_batch_advances Cons.IH] run_batch_advances
    by (auto simp: Let_def split: sum.splits)
qed

lemma run_batches_retry:
  "success (fst (run_batches env True bs rs st)) \<and>
   (\<forall>b \<in> set bs. \<forall>j \<in> set b. j < length (tasks st) \<longrightarrow>
      terminal (status (tasks (snd (run_batches env True bs rs st)) ! j)))"
proof (induction bs arbitrary: rs st)
  case Nil
  show ?case by simp
next
  case (Cons b bs)
  let ?settled = "run_batch env b st"
  obtain rs1 where rs1: "collect_results True (fst ?settled) rs = Inr rs1"
    using collect_results_retry by blast
  have eq: "run_batches env True (b # bs) rs st = run_batches env True bs rs1 (snd ?settled)"
    using rs1 by (simp add: Let_def)
  have adv: "advances (snd ?settled) (snd (run_batches env True bs rs1 (snd ?settled)))"
    by (rule run_batches_advances)
  have here: "\<forall>j \<in> set b. j < length (tasks st) \<longrightarrow>
      terminal (status (tasks (snd (run_batches env True bs rs1 (snd ?settled))) ! j))"
    using advances_terminal[OF adv] run_batch_terminal[of _ b st env] by simp
  show ?case unfolding eq using Cons.IH[of rs1 "snd ?settled"] here by simp
qed

lemma executeParallel_loop_partial:
  assumes "executeParallel_loop env s i rs st = Some y"
  shows "advances st (snd y) \<and>
   (retryOnFailure s \<longrightarrow> success (fst y) \<and>
      (if 0 < maxConcurrency s
       then 0 \<le> i \<longrightarrow> (\<forall>j. nat i \<le> j \<and> j < length (tasks st) \<longrightarrow> terminal (status (tasks (snd y) ! j)))
       else int (length (tasks st)) \<le> i))"
  using assms
proof (induction rule: executeParallel_loop.raw_induct[rotated 1, consumes 1])
  case (1 loop env s i rs st y)
  let ?n = "length (tasks st)"
  let ?mc = "maxConcurrency s"
  show ?case
  proof (cases "i < int ?n")
    case False
    then have "y = (\<lparr>success = True, results = rs, validationIssues = None\<rparr>, st)"
      using 1(2) by simp
    then show ?thesis using False by auto
  next
    case True
    let ?bounds = "slice_bounds ?n i (i + ?mc)"
    let ?b = "[fst ?bounds..<snd ?bounds]"
    let ?settled = "run_batch env ?b st"
    have adv1: "advances st (snd ?settled)" by (rule run_batch_advances)
    have len: "length (tasks (snd ?settled)) = ?n" by simp
    show ?thesis
    proof (cases "collect_results (retryOnFailure s) (fst ?settled) rs")
      case (Inl rs1)
      then have "y = (\<lparr>success = False, results = rs1, validationIssues = None\<rparr>, snd ?settled)"
        using 1(2) True by (simp add: Let_def)
      moreover have "\<not> retryOnFailure s" using Inl collect_results_abort by blast
      ultimately show ?thesis using adv1 by simp
    next
      case (Inr rs1)
      then have rec: "loop env s (i + ?mc) rs1 (snd ?settled) = Some y"
        using 1(2) True by (simp add: Let_def)
      note ih = 1(1)[OF rec]
      have adv: "advances st (snd y)" using advances_trans[OF adv1] ih by blast
      have "success (fst y) \<and>
            (if 0 < ?mc
             then 0 \<le> i \<longrightarrow> (\<forall>j. nat i \<le> j \<and> j < ?n \<longrightarrow> terminal (status (tasks (snd y) ! j)))
             else int ?n \<le> i)" if retry: "retryOnFailure s"
      proof (cases "0 < ?mc")
        case False
        then show ?thesis using ih retry True len by auto
      next
        case mc: True
        have "terminal (status (tasks (snd y) ! j))" if i0: "0 \<le> i" and j: "nat i \<le> j" "j < ?n" for j
        proof (cases "j < nat i + nat ?mc")
          case True
          have "?bounds = (nat i, min (nat i + nat ?mc) ?n)"
            using slice_bounds_batch[OF i0 \<open>i < int ?n\<close> mc] .
          then have "j \<in> set ?b" using True j by simp
          then have "terminal (status (tasks (snd ?settled) ! j))"
            using run_batch_terminal j(2) by blast
          moreover have "advances (snd ?settled) (snd y)" using ih by blast
          ultimately show ?thesis using advances_terminal j(2) len by metis
        next
          case False
          then have "nat (i + ?mc) \<le> j" using i0 mc by (simp add: nat_add_distrib)
          moreover have "0 \<le> i + ?mc" using i0 mc by simp
          ultimately show ?thesis using ih retry mc j(2) len by auto
        qed
        then show ?thesis using ih retry mc by auto
      qed
      then show ?thesis using adv by blast
    qed
  qed
qed

section \<open>The tasks a run starts from\<close>

lemma push_current_pending:
  "\<forall>t \<in> set ts. status t = pending \<Longrightarrow> \<forall>t \<in> set (push_current ts c). status t = pending"
  by (simp add: push_current_def)

lemma parse_line_pending:
  "\<forall>t \<in> set (fst acc). status t = pending \<Longrightarrow> \<forall>t \<in> set (fst (parse_line acc line)). status t = pending"
  using push_current_pending[of "fst acc" "snd acc"] by (simp add: parse_line_def Let_def)

lemma foldl_parse_pending:
  "\<forall>t \<in> set (fst acc). status t = pending \<Longrightarrow>
   \<forall>t \<in> set (fst (foldl parse_line acc ls)). status t = pending"
proof (induction ls arbitrary: acc)
  case Nil
  then show ?case by simp
next
  case (Cons l ls)
  show ?case using Cons.IH[OF parse_line_pending[OF Cons.prems]] by simp
qed

lemma parseTaskBreakdown_pending:
  "\<forall>t \<in> set (parseTaskBreakdown a d). status t = pending"
proof -
  let ?acc = "foldl parse_line ([], \<lparr>pt_description = None, pt_priority = None, pt_dependencies = None\<rparr>)
                (split CHR 0x0A a)"
  have "\<forall>t \<in> set (fst ?acc). status t = pending" by (rule foldl_parse_pending) simp
  then have "\<forall>t \<in> set (push_current (fst ?acc) (snd ?acc)). status t = pending"
    by (rule push_current_pending)
  then show ?thesis by (simp add: parseTaskBreakdown_def Let_def fallback_task_def)
qed

lemma analyze_tasks:
  "analyzeAndBreakdownTask env d st = Inr (ts, st') \<Longrightarrow>
   (\<forall>t \<in> set ts. status t = pending)"
  using parseTaskBreakdown_pending
  by (auto simp: analyzeAndBreakdownTask_def Let_def split: sum.splits option.splits)

section \<open>Final statuses\<close>

lemma advances_from_pending:
  assumes "advances st st'" "\<forall>t \<in> set (tasks st). status t = pending"
  shows "\<forall>t \<in> set (tasks st'). status t = pending \<or> terminal (status t)"
proof
  fix t assume "t \<in> set (tasks st')"
  then obtain j where j: "j < length (tasks st')" "tasks st' ! j = t"
    by (auto simp: in_set_conv_nth)
  then have jl: "j < length (tasks st)" using assms(1) by (simp add: advances_def)
  then have "status (tasks st ! j) = pending" using assms(2) by simp
  then show "status t = pending \<or> terminal (status t)"
    using assms(1) j jl unfolding advances_def by auto
qed

lemma all_positions_terminal:
  assumes "length (tasks st') = n" "\<forall>j \<in> set [0..<n]. j < n \<longrightarrow> terminal (status (tasks st' ! j))"
  shows "\<forall>t \<in> set (tasks st'). terminal (status t)"
proof
  fix t assume "t \<in> set (tasks st')"
  then obtain j where j: "j < length (tasks st')" "tasks st' ! j = t"
    by (auto simp: in_set_conv_nth)
  then have "j \<in> set [0..<n]" using assms(1) by simp
  then show "terminal (status t)" using assms j by blast
qed

lemma executeSequential_statuses:
  assumes "executeSequential env this st = (res, st')"
  shows "advances st st' \<and>
         (retryOnFailure this \<longrightarrow> success res \<and> (\<forall>t \<in> set (tasks st'). terminal (status t)))"
proof -
  let ?ps = "[0..<length (tasks st)]"
  have r: "executeSequential_loop env this ?ps [] st = (res, st')"
    using assms by (simp add: executeSequential_def)
  have adv: "advances st st'"
    using executeSequential_loop_advances[of st env this ?ps "[]"] unfolding r by simp
  have len: "length (tasks st') = length (tasks st)" using adv by (rule advances_length)
  have "success res \<and> (\<forall>t \<in> set (tasks st'). terminal (status t))" if retry: "retryOnFailure this"
  proof -
    have "success res \<and> (\<forall>j \<in> set ?ps. j < length (tasks st) \<longrightarrow> terminal (status (tasks st' ! j)))"
      using executeSequential_loop_retry[OF retry, of env ?ps "[]" st] unfolding r by simp
    then show ?thesis using all_positions_terminal[OF len] by blast
  qed
  then show ?thesis using adv by blast
qed

lemma executeCollaborative_statuses:
  assumes "executeCollaborative env this st = (res, st')"
  shows "advances st st' \<and>
         (retryOnFailure this \<longrightarrow> success res \<and> (\<forall>t \<in> set (tasks st'). terminal (status t)))"
proof -
  let ?ps = "[0..<length (tasks st)]"
  have r: "executeCollaborative_loop env this ?ps [] st = (res, st')"
    using assms by (simp add: executeCollaborative_def)
  have adv: "advances st st'"
    using executeCollaborative_loop_advances[of st env this ?ps "[]"] unfolding r by simp
  have len: "length (tasks st') = length (tasks st)" using adv by (rule advances_length)
  have "success res \<and> (\<forall>t \<in> set (tasks st'). terminal (status t))" if retry: "retryOnFailure this"
  proof -
    have "success res \<and> (\<forall>j \<in> set ?ps. j < length (tasks st) \<longrightarrow> terminal (status (tasks st' ! j)))"
      using executeCollaborative_loop_retry[OF retry, of env ?ps "[]" st] unfolding r by simp
    then show ?thesis using all_positions_terminal[OF len] by blast
  qed
  then show ?thesis using adv by blast
qed

lemma executeHierarchical_statuses:
  assumes "executeHierarchical env this st = Inr (res, st')"
  shows "advances (st\<lparr>tasks := sort_by compare_priority (tasks st)\<rparr>) st' \<and>
         (retryOnFailure this \<longrightarrow> success res \<and> (\<forall>t \<in> set (tasks st'). terminal (status t)))"
proof -
  let ?sorted = "st\<lparr>tasks := sort_by compare_priority (tasks st)\<rparr>"
  let ?ps = "[0..<length (tasks ?sorted)]"
  have r: "executeHierarchical_loop env this ?ps [] ?sorted = Inr (res, st')"
    using assms by (simp add: executeHierarchical_def Let_def)
  have adv: "advances ?sorted st'" using r by (rule executeHierarchical_loop_advances)
  have len: "length (tasks st') = length (tasks ?sorted)" using adv by (rule advances_length)
  have "success res \<and> (\<forall>t \<in> set (tasks st'). terminal (status t))" if retry: "retryOnFailure this"
  proof -
    have "success res \<and> (\<forall>j \<in> set ?ps. j < length (tasks ?sorted) \<longrightarrow> terminal (status (tasks st' ! j)))"
      using retry r by (rule executeHierarchical_loop_retry)
    then show ?thesis using all_positions_terminal[OF len] by blast
  qed
  then show ?thesis using adv by blast
qed

lemma executeParallel_statuses:
  assumes "executeParallel env this st = Some (res, st')"
  shows "advances st st' \<and>
         (retryOnFailure this \<longrightarrow> success res \<and> (\<forall>t \<in> set (tasks st'). terminal (status t)))"
proof -
  have r: "executeParallel_loop env this 0 [] st = Some (res, st')"
    using assms by (simp add: executeParallel_def)
  note p = executeParallel_loop_partial[OF r]
  have adv: "advances st st'" using p by simp
  have len: "length (tasks st') = length (tasks st)" using adv by (rule advances_length)
  have "success res \<and> (\<forall>t \<in> set (tasks st'). terminal (status t))" if retry: "retryOnFailure this"
  proof (cases "0 < maxConcurrency this")
    case True
    then have "\<forall>j \<in> set [0..<length (tasks st)]. j < length (tasks st) \<longrightarrow> terminal (status (tasks st' ! j))"
      using p retry by simp
    then have "\<forall>t \<in> set (tasks st'). terminal (status t)" using all_positions_terminal[OF len] by blast
    then show ?thesis using p retry by simp
  next
    case False
    then have "tasks st = []" using p retry by simp
    then have "tasks st' = []" using len by simp
    then show ?thesis using p retry by simp
  qed
  then show ?thesis using adv by blast
qed

lemma execute_strategy_statuses:
  assumes "execute_strategy env this ty st = Some (Inr (res, st'))"
    and "\<forall>t \<in> set (tasks st). status t = pending"
  shows "(\<forall>t \<in> set (tasks st'). status t = pending \<or> terminal (status t)) \<and>
         (retryOnFailure this \<longrightarrow> success res \<and> (\<forall>t \<in> set (tasks st'). terminal (status t)))"
proof (cases ty)
  case sequential
  then have "executeSequential env this st = (res, st')"
    using assms(1) by (simp add: execute_strategy_def)
  from executeSequential_statuses[OF this] advances_from_pending[OF _ assms(2)]
  show ?thesis by blast
next
  case collaborative
  then have "executeCollaborative env this st = (res, st')"
    using assms(1) by (simp add: execute_strategy_def)
  from executeCollaborative_statuses[OF this] advances_from_pending[OF _ assms(2)]
  show ?thesis by blast
next
  case hierarchical
  let ?sorted = "st\<lparr>tasks := sort_by compare_priority (tasks st)\<rparr>"
  have pend: "\<forall>t \<in> set (tasks ?sorted). status t = pending"
    using assms(2) by (simp add: set_sort_by)
  have "executeHierarchical env this st = Inr (res, st')"
    using assms(1) hierarchical by (simp add: execute_strategy_def)
  from executeHierarchical_statuses[OF this] advances_from_pending[OF _ pend]
  show ?thesis by blast
next
  case parallel
  then have "executeParallel env this st = Some (res, st')"
    using assms(1) by (auto simp: execute_strategy_def)
  from executeParallel_statuses[OF this] advances_from_pending[OF _ assms(2)]
  show ?thesis by blast
qed

lemma crossValidate_fields:
  "crossValidate env res st = Inr (v, st') \<Longrightarrow>
   tasks st' = tasks st \<and> calls st' = calls st @ [validation_call env res (agentContributions st)]"
  by (auto simp: crossValidate_def Let_def split: sum.splits option.splits)

lemma finish_run_report:
  assumes "finish_run env strat (res, st) = Inr (report, cs)"
  shows "taskBreakdown report = tasks st \<and>
         (\<not> (crossValidation strat \<and> success res) \<longrightarrow> report_success report = success res \<and> cs = calls st)"
proof (cases "crossValidation strat \<and> success res")
  case False
  then show ?thesis using assms by (auto simp: finish_run_def Let_def)
next
  case True
  let ?st1 = "push_event ''Cross-validation started'' ''reviewer'' st"
  obtain v st2 where cv: "crossValidate env res ?st1 = Inr (v, st2)"
    using assms True by (auto simp: finish_run_def Let_def split: sum.splits)
  then have "tasks st2 = tasks st" using crossValidate_fields by fastforce
  then show ?thesis using assms True cv
    by (auto simp: finish_run_def Let_def split: if_splits)
qed

lemma orchestrateTask_stages:
  assumes "orchestrateTask env this d opts = Some (Inr (report, cs))"
  obtains ts sta res st where
    "analyzeAndBreakdownTask env d
       (push_event ''Task analysis started'' ''lead''
          \<lparr>tasks = [], timeline = [], agentContributions = [], calls = []\<rparr>) = Inr (ts, sta)"
    "execute_strategy env this (stype (case opts of Some s \<Rightarrow> s | None \<Rightarrow> this))
       (push_event ''Task breakdown completed'' ''lead'' (sta\<lparr>tasks := ts\<rparr>)) = Some (Inr (res, st))"
    "finish_run env (case opts of Some s \<Rightarrow> s | None \<Rightarrow> this) (res, st) = Inr (report, cs)"
  using assms
  by (auto simp: orchestrateTask_def Let_def split: sum.splits option.splits)

lemma report_ofD: "report_of x = Some report \<Longrightarrow> \<exists>cs. x = Some (Inr (report, cs))"
  by (auto simp: report_of_def split: option.splits sum.splits)

lemma report_of_returned: "report_of x \<noteq> None \<Longrightarrow> \<exists>cs. x = Some (Inr (the (report_of x), cs))"
  using report_ofD by fastforce




section \<open>Retrying strategies report success\<close>

lemma executeParallel_returns:
  assumes "0 < maxConcurrency s"
  shows "executeParallel env s st =
           Some (run_batches env (retryOnFailure s)
                   (contiguous_batches (nat (maxConcurrency s)) [0..<length (tasks st)]) [] st)"
  using executeParallel_loop_batches[OF assms, of 0 env "[]" st] by (simp add: executeParallel_def)

lemma executeHierarchical_returns:
  assumes "\<forall>n c. call_agent c = ''lead'' \<longrightarrow> (\<exists>g. processTask env n c = Inr g)"
  shows "\<exists>r. executeHierarchical env s st = Inr r"
  using executeHierarchical_loop_returns[OF assms] by (simp add: executeHierarchical_def Let_def)

text \<open>
  C10. When the orchestrator is built with \<open>retryOnFailure = true\<close>, each of the four
  strategy executors reports \<open>success = true\<close> whenever it returns, whichever tasks fail;
  the sequential and the collaborative executor always return, the parallel one does for
  a positive \<open>maxConcurrency\<close>, the hierarchical one when no request to the lead is
  rejected. With cross-validation disabled the Run Report then has \<open>success = true\<close>, also
  when every task has failed.
\<close>

theorem retry_reports_success:
  assumes "retryOnFailure this_strategy"
  shows "success (fst (executeSequential env this_strategy st)) \<and>
         success (fst (executeCollaborative env this_strategy st)) \<and>
         (\<forall>r. executeParallel env this_strategy st = Some r \<longrightarrow> success (fst r)) \<and>
         (0 < maxConcurrency this_strategy \<longrightarrow> (\<exists>r. executeParallel env this_strategy st = Some r)) \<and>
         (\<forall>r. executeHierarchical env this_strategy st = Inr r \<longrightarrow> success (fst r)) \<and>
         ((\<forall>n c. call_agent c = ''lead'' \<longrightarrow> (\<exists>g. processTask env n c = Inr g)) \<longrightarrow>
            (\<exists>r. executeHierarchical env this_strategy st = Inr r)) \<and>
         (\<forall>report cs.
            orchestrateTask env this_strategy d options_strategy = Some (Inr (report, cs)) \<and>
            \<not> crossValidation (case options_strategy of Some s \<Rightarrow> s | None \<Rightarrow> this_strategy)
            \<longrightarrow> report_success report)"
proof (intro conjI)
  show "success (fst (executeSequential env this_strategy st))"
    using executeSequential_statuses[of env this_strategy st] assms by (metis prod.collapse)
  show "success (fst (executeCollaborative env this_strategy st))"
    using executeCollaborative_statuses[of env this_strategy st] assms by (metis prod.collapse)
  show "\<forall>r. executeParallel env this_strategy st = Some r \<longrightarrow> success (fst r)"
    using executeParallel_statuses[of env this_strategy st] assms by (metis prod.collapse)
  show "0 < maxConcurrency this_strategy \<longrightarrow> (\<exists>r. executeParallel env this_strategy st = Some r)"
    using executeParallel_returns by blast
  show "\<forall>r. executeHierarchical env this_strategy st = Inr r \<longrightarrow> success (fst r)"
    using executeHierarchical_statuses[of env this_strategy st] assms by (metis prod.collapse)
  show "(\<forall>n c. call_agent c = ''lead'' \<longrightarrow> (\<exists>g. processTask env n c = Inr g)) \<longrightarrow>
            (\<exists>r. executeHierarchical env this_strategy st = Inr r)"
    using executeHierarchical_returns by blast
  show "\<forall>report cs.
            orchestrateTask env this_strategy d options_strategy = Some (Inr (report, cs)) \<and>
            \<not> crossValidation (case options_strategy of Some s \<Rightarrow> s | None \<Rightarrow> this_strategy)
            \<longrightarrow> report_success report"
  proof (intro allI impI, elim conjE)
    fix report cs
    assume run: "orchestrateTask env this_strategy d options_strategy = Some (Inr (report, cs))"
      and cv: "\<not> crossValidation (case options_strategy of Some s \<Rightarrow> s | None \<Rightarrow> this_strategy)"
    from run obtain ts sta res st1 where
      an: "analyzeAndBreakdownTask env d
         (push_event ''Task analysis started'' ''lead''
            \<lparr>tasks = [], timeline = [], agentContributions = [], calls = []\<rparr>) = Inr (ts, sta)"
      and ex: "execute_strategy env this_strategy
         (stype (case options_strategy of Some s \<Rightarrow> s | None \<Rightarrow> this_strategy))
         (push_event ''Task breakdown completed'' ''lead'' (sta\<lparr>tasks := ts\<rparr>)) = Some (Inr (res, st1))"
      and fin: "finish_run env (case options_strategy of Some s \<Rightarrow> s | None \<Rightarrow> this_strategy) (res, st1)
                  = Inr (report, cs)"
      by (rule orchestrateTask_stages)
    have "\<forall>t \<in> set ts. status t = pending" using an by (rule analyze_tasks)
    then have "\<forall>t \<in> set (tasks (push_event ''Task breakdown completed'' ''lead'' (sta\<lparr>tasks := ts\<rparr>))).
                 status t = pending" by simp
    from execute_strategy_statuses[OF ex this] assms have "success res" by blast
    then show "report_success report" using finish_run_report[OF fin] cv by simp
  qed
qed

theorem retry_reports_success_witness:
  "map_option (map status \<circ> taskBreakdown)
     (report_of (orchestrateTask (scripted ''- Fix the bug\<newline>- Build login'' ''pass'' [''tester'', ''developer''])
        \<lparr>stype = parallel, maxConcurrency = 2, retryOnFailure = True, crossValidation = False\<rparr>
        ''Ship it'' None)) = Some [failed, failed] \<and>
   report_success (the (report_of (orchestrateTask (scripted ''- Fix the bug\<newline>- Build login'' ''pass'' [''tester'', ''developer''])
        \<lparr>stype = parallel, maxConcurrency = 2, retryOnFailure = True, crossValidation = False\<rparr>
        ''Ship it'' None)))"
proof -
  let ?s = "\<lparr>stype = parallel, maxConcurrency = 2, retryOnFailure = True, crossValidation = False\<rparr>"
  let ?x = "orchestrateTask (scripted ''- Fix the bug\<newline>- Build login'' ''pass'' [''tester'', ''developer''])
              ?s ''Ship it'' None"
  have statuses: "map_option (map status \<circ> taskBreakdown) (report_of ?x) = Some [failed, failed]"
    by code_simp
  then have "report_of ?x \<noteq> None" by auto
  then obtain cs where run: "?x = Some (Inr (the (report_of ?x), cs))"
    using report_of_returned by blast
  have retry: "retryOnFailure ?s" by simp
  have "report_success (the (report_of ?x))"
  proof (rule retry_reports_success[OF retry, where options_strategy = None and d = "''Ship it''"
        and env = "scripted ''- Fix the bug\<newline>- Build login'' ''pass'' [''tester'', ''developer'']"
        and st = "run_of []",
        THEN conjunct2, THEN conjunct2, THEN conjunct2, THEN conjunct2, THEN conjunct2,
        THEN conjunct2, rule_format, of _ cs])
    show "?x = Some (Inr (the (report_of ?x), cs)) \<and>
          \<not> crossValidation (case None of None \<Rightarrow> ?s | Some s \<Rightarrow> s)"
      using run by simp
  qed
  with statuses show ?thesis by blast
qed

section \<open>When a run returns a report, and the verdict of cross-validation\<close>


lemma crossValidate_returns:
  assumes "processTask env (length (calls st)) (validation_call env res (agentContributions st)) = Inr v"
    and "ar_result v = Some text"
  shows "crossValidate env res st =
           Inr (\<lparr>passed = str_includes (toLowerCase text) ''pass'' \<and> \<not> str_includes (toLowerCase text) ''fail'',
                 issues = extractIssues text, recommendations = extractRecommendations text\<rparr>,
                snd (invoke env (validation_call env res (agentContributions st)) st))"
  using assms by (simp add: crossValidate_def Let_def)



text \<open>
  C6. When cross-validation is enabled and the strategy has succeeded, the reviewer is
  invoked once, after every other invocation, and (its answer carrying a text) the run's
  success flag is true exactly when the lower-cased answer contains \<open>pass\<close> and does not
  contain \<open>fail\<close>; an answer containing \<open>fail\<close> makes it false. The report's tasks are
  those the strategy left: none is rolled back or run again.
\<close>

theorem crossValidation_verdict:
  assumes "analyzeAndBreakdownTask env d
             (push_event ''Task analysis started'' ''lead''
                \<lparr>tasks = [], timeline = [], agentContributions = [], calls = []\<rparr>) = Inr (ts, sta)"
    and "strat = (case options_strategy of Some s \<Rightarrow> s | None \<Rightarrow> this_strategy)"
    and "execute_strategy env this_strategy (stype strat)
           (push_event ''Task breakdown completed'' ''lead'' (sta\<lparr>tasks := ts\<rparr>)) = Some (Inr (res, st))"
    and "crossValidation strat" and "success res"
    and "processTask env (length (calls st)) (validation_call env res (agentContributions st)) = Inr v"
    and "ar_result v = Some text"
  shows "\<exists>report.
           orchestrateTask env this_strategy d options_strategy =
             Some (Inr (report, calls st @ [validation_call env res (agentContributions st)])) \<and>
           call_agent (validation_call env res (agentContributions st)) = ''reviewer'' \<and>
           report_success report =
             (str_includes (toLowerCase text) ''pass'' \<and> \<not> str_includes (toLowerCase text) ''fail'') \<and>
           (str_includes (toLowerCase text) ''fail'' \<longrightarrow> \<not> report_success report) \<and>
           taskBreakdown report = tasks st \<and>
           results (report_result report) = results res"
proof -
  let ?st1 = "push_event ''Cross-validation started'' ''reviewer'' st"
  let ?vc = "validation_call env res (agentContributions st)"
  have "processTask env (length (calls ?st1)) (validation_call env res (agentContributions ?st1)) = Inr v"
    using assms(6) by simp
  note cv = crossValidate_returns[OF this assms(7)]
  have fin: "\<exists>report. finish_run env strat (res, st) = Inr (report, calls st @ [?vc]) \<and>
           report_success report =
             (str_includes (toLowerCase text) ''pass'' \<and> \<not> str_includes (toLowerCase text) ''fail'') \<and>
           taskBreakdown report = tasks st \<and> results (report_result report) = results res"
    using assms(4,5) cv by (simp add: finish_run_def Let_def)
  have agent: "call_agent ?vc = ''reviewer''" by (simp add: validation_call_def worker_call_def)
  from fin obtain report where
    r: "finish_run env strat (res, st) = Inr (report, calls st @ [?vc])"
       "report_success report =
             (str_includes (toLowerCase text) ''pass'' \<and> \<not> str_includes (toLowerCase text) ''fail'')"
       "taskBreakdown report = tasks st" "results (report_result report) = results res"
    by blast
  have "orchestrateTask env this_strategy d options_strategy = Some (Inr (report, calls st @ [?vc]))"
    using assms(1,2,3) r(1) by (simp add: orchestrateTask_def Let_def)
  then show ?thesis using r agent by blast
qed

lemma not_isl_projr: "\<not> isl x \<Longrightarrow> x = Inr (fst (projr x), snd (projr x))"
  by (cases x) auto

lemma returned_projr: "\<not> Option.is_none x \<Longrightarrow> \<not> isl (the x) \<Longrightarrow> x = Some (Inr (fst (projr (the x)), snd (projr (the x))))"
  by (cases x) (auto simp: not_isl_projr Option.is_none_def)

theorem crossValidation_verdict_witness:
  "map_option (\<lambda>r. (report_success r, success (report_result r), map status (taskBreakdown r)))
     (report_of (orchestrateTask (scripted ''- Fix the bug\<newline>- Build login'' ''No failures, all checks pass'' [])
        \<lparr>stype = sequential, maxConcurrency = 3, retryOnFailure = True, crossValidation = True\<rparr>
        ''Ship it'' None)) = Some (False, True, [completed, completed])"
proof -
  let ?env = "scripted ''- Fix the bug\<newline>- Build login'' ''No failures, all checks pass'' []"
  let ?s = "\<lparr>stype = sequential, maxConcurrency = 3, retryOnFailure = True, crossValidation = True\<rparr>"
  let ?st0 = "push_event ''Task analysis started'' ''lead''
                \<lparr>tasks = [], timeline = [], agentContributions = [], calls = []\<rparr>"
  let ?A = "analyzeAndBreakdownTask ?env ''Ship it'' ?st0"
  let ?ts = "fst (projr ?A)" let ?sta = "snd (projr ?A)"
  let ?st1 = "push_event ''Task breakdown completed'' ''lead'' (?sta\<lparr>tasks := ?ts\<rparr>)"
  let ?X = "execute_strategy ?env ?s (stype ?s) ?st1"
  let ?res = "fst (projr (the ?X))" let ?st = "snd (projr (the ?X))"
  have "\<not> isl ?A" by code_simp
  then have 1: "?A = Inr (?ts, ?sta)" by (rule not_isl_projr)
  have 2: "?s = (case None of Some s \<Rightarrow> s | None \<Rightarrow> ?s)" by simp
  have "\<not> Option.is_none ?X" "\<not> isl (the ?X)" by code_simp+
  then have 3: "?X = Some (Inr (?res, ?st))" by (rule returned_projr)
  have 4: "crossValidation ?s" by simp
  have 5: "success ?res" by code_simp
  have 6: "processTask ?env (length (calls ?st)) (validation_call ?env ?res (agentContributions ?st))
             = Inr (answer ''No failures, all checks pass'')"
    by (simp add: scripted_def environment_of_def validation_call_def worker_call_def)
  have 7: "ar_result (answer ''No failures, all checks pass'') = Some ''No failures, all checks pass''"
    by (simp add: answer_def)
  have fail: "str_includes (toLowerCase ''No failures, all checks pass'') ''fail''" by code_simp
  from crossValidation_verdict[OF 1 2 3 4 5 6 7] fail obtain report cs where
    r: "orchestrateTask ?env ?s ''Ship it'' None = Some (Inr (report, cs))"
       "\<not> report_success report" "taskBreakdown report = tasks ?st"
    by blast
  have st: "map status (tasks ?st) = [completed, completed]" by code_simp
  have sr: "map_option (\<lambda>r. success (report_result r)) (report_of (orchestrateTask ?env ?s ''Ship it'' None)) = Some True"
    by code_simp
  show ?thesis using r st sr by (simp add: report_of_def)
qed

section \<open>Roles within a batch\<close>

text \<open>
  C3 (as amended). In the parallel strategy every task of a batch is dispatched, before
  any task of the batch settles, to the worker of the role that \<open>selectBestAgent\<close> returns
  for the task's own description, one worker instance per role; the role of a task does
  not depend on the other tasks of the batch, so tasks of one batch whose descriptions
  select the same role are in flight on the same worker.
\<close>

theorem parallel_dispatch_roles:
  "calls (snd (dispatch_all env batch st)) =
     calls st @ map (\<lambda>i. worker_call (selectBestAgent (tasks st ! i)) (description (tasks st ! i)) 8) batch \<and>
   map (\<lambda>p. fst (snd (snd p))) (fst (dispatch_all env batch st)) =
     map (\<lambda>i. selectBestAgent (tasks st ! i)) batch \<and>
   calls (snd (run_batch env batch st)) = calls (snd (dispatch_all env batch st))"
proof (intro conjI)
  show "calls (snd (dispatch_all env batch st)) =
     calls st @ map (\<lambda>i. worker_call (selectBestAgent (tasks st ! i)) (description (tasks st ! i)) 8) batch"
    by (rule dispatch_all_calls)
  show "map (\<lambda>p. fst (snd (snd p))) (fst (dispatch_all env batch st)) =
     map (\<lambda>i. selectBestAgent (tasks st ! i)) batch"
  proof (induction batch arbitrary: st)
    case Nil
    show ?case by simp
  next
    case (Cons i batch)
    have "\<And>j. selectBestAgent (tasks (snd (dispatch env i st)) ! j) = selectBestAgent (tasks st ! j)"
      using same_work_select[OF dispatch_same_work] by blast
    then show ?case using Cons.IH[of "snd (dispatch env i st)"]
      by (simp add: Let_def) (simp add: dispatch_def Let_def)
  qed
  show "calls (snd (run_batch env batch st)) = calls (snd (dispatch_all env batch st))"
    by (simp add: run_batch_def Let_def)
qed

theorem parallel_dispatch_roles_counterexample:
  "slice_bounds 2 0 (0 + 2) = (0, 2) \<and>
   map call_agent (calls (snd (run_batch (scripted [] ''pass'' []) [0..<2]
     (run_of (parseTaskBreakdown ''- Implement login\<newline>- Implement logout'' ''Ship it'')))))
     = [''developer'', ''developer''] \<and>
   \<not> distinct (map selectBestAgent
                   (parseTaskBreakdown ''- Implement login\<newline>- Implement logout'' ''Ship it'')) \<and>
   map_option report_timeline
     (report_of (orchestrateTask (scripted ''- Implement login\<newline>- Implement logout'' ''pass'' [])
        \<lparr>stype = parallel, maxConcurrency = 2, retryOnFailure = True, crossValidation = False\<rparr>
        ''Ship it'' None)) =
     Some [(''Task analysis started'', ''lead''), (''Task breakdown completed'', ''lead''),
           (''Task started: Implement login'', ''developer''),
           (''Task started: Implement logout'', ''developer''),
           (''Task completed: Implement login'', ''developer''),
           (''Task completed: Implement logout'', ''developer'')]"
  by code_simp

section \<open>Guidance in the hierarchical strategy\<close>

lemma zip_positions:
  "map (\<lambda>(i, g). f (xs ! i) g) (zip [0..<length xs] gs) = map (\<lambda>(t, g). f t g) (zip xs gs)"
  by (rule nth_equalityI) simp_all

lemma executeHierarchical_calls:
  assumes "executeHierarchical env s st = Inr (res, st')"
  shows "\<exists>gs. length gs \<le> length (tasks st) \<and> (success res \<longrightarrow> length gs = length (tasks st)) \<and>
           calls st' = calls st @
             concat (map (\<lambda>(t, g). consultation t g) (zip (sort_by compare_priority (tasks st)) gs)) \<and>
           (\<forall>k < length gs.
              processTask env (length (calls st) + 2 * k)
                (hd (consultation (sort_by compare_priority (tasks st) ! k) (gs ! k))) = Inr (gs ! k))"
proof -
  let ?xs = "sort_by compare_priority (tasks st)"
  let ?sorted = "st\<lparr>tasks := ?xs\<rparr>"
  have r: "executeHierarchical_loop env s [0..<length ?xs] [] ?sorted = Inr (res, st')"
    using assms by (simp add: executeHierarchical_def Let_def)
  have "\<forall>i \<in> set [0..<length ?xs]. i < length (tasks ?sorted)" by simp
  have ts: "tasks ?sorted = ?xs" and cs: "calls ?sorted = calls st" by simp_all
  from executeHierarchical_loop_calls[OF r \<open>\<forall>i \<in> set [0..<length ?xs]. i < length (tasks ?sorted)\<close>]
  have "\<exists>gs. length gs \<le> length [0..<length ?xs] \<and> (success res \<longrightarrow> length gs = length [0..<length ?xs]) \<and>
        calls st' = calls st @ concat (map (\<lambda>(i, g). consultation (?xs ! i) g) (zip [0..<length ?xs] gs)) \<and>
        (\<forall>k < length gs. processTask env (length (calls st) + 2 * k)
            (guidance_call (?xs ! ([0..<length ?xs] ! k)) (selectBestAgent (?xs ! ([0..<length ?xs] ! k))))
            = Inr (gs ! k))"
    by (simp only: ts cs)
  then obtain gs where
    gs: "length gs \<le> length [0..<length ?xs]" "success res \<longrightarrow> length gs = length [0..<length ?xs]"
        "calls st' = calls st @ concat (map (\<lambda>(i, g). consultation (?xs ! i) g) (zip [0..<length ?xs] gs))"
        "\<forall>k < length gs. processTask env (length (calls st) + 2 * k)
            (guidance_call (?xs ! ([0..<length ?xs] ! k)) (selectBestAgent (?xs ! ([0..<length ?xs] ! k))))
            = Inr (gs ! k)"
    by blast
  have c: "calls st' = calls st @ concat (map (\<lambda>(t, g). consultation t g) (zip ?xs gs))"
    using gs(3) by (simp only: zip_positions)
  have "processTask env (length (calls st) + 2 * k) (hd (consultation (?xs ! k) (gs ! k))) = Inr (gs ! k)"
    if "k < length gs" for k
    using gs(4) gs(1) that by (simp add: consultation_def)
  moreover have "length gs \<le> length (tasks st)" using gs(1) by (simp add: length_sort_by)
  moreover have "success res \<longrightarrow> length gs = length (tasks st)" using gs(2) by (simp add: length_sort_by)
  ultimately show ?thesis using c by blast
qed

text \<open>
  C4 (as amended). In the hierarchical strategy the invocations made for the tasks come
  in pairs, in the order of the sorted task list: first the lead is asked, with reasoning
  disabled, for guidance naming the task's description, its assigned role key and the
  role's name; then the worker of the assigned role, never the lead, is invoked with the
  task description followed by \<open>Guidance from lead:\<close> and the text of the lead's answer. The
  guidance is appended to the description, not put before it.
\<close>

theorem hierarchical_guidance:
  assumes "executeHierarchical env s st = Inr (res, st')"
  shows "(\<exists>gs. length gs \<le> length (tasks st) \<and> (success res \<longrightarrow> length gs = length (tasks st)) \<and>
            calls st' = calls st @
              concat (map (\<lambda>(t, g). consultation t g) (zip (sort_by compare_priority (tasks st)) gs)) \<and>
            (\<forall>k < length gs.
               processTask env (length (calls st) + 2 * k)
                 (hd (consultation (sort_by compare_priority (tasks st) ! k) (gs ! k))) = Inr (gs ! k))) \<and>
         (\<forall>t g. consultation t g =
                   [\<lparr>call_agent = ''lead'',
                     call_prompt = ''Provide guidance for this task: '' @ description t @
                                   ''\<newline>        Agent: '' @ selectBestAgent t @
                                   ''\<newline>        Role: '' @ js_string (role_name (selectBestAgent t)),
                     call_reasoning = False, call_maxSteps = 3\<rparr>,
                    \<lparr>call_agent = selectBestAgent t,
                     call_prompt = description t @ ''\<newline>\<newline>Guidance from lead: '' @
                                   js_string (ar_result g),
                     call_reasoning = True, call_maxSteps = 8\<rparr>] \<and>
                 selectBestAgent t \<noteq> ''lead'')"
proof
  show "\<exists>gs. length gs \<le> length (tasks st) \<and> (success res \<longrightarrow> length gs = length (tasks st)) \<and>
            calls st' = calls st @
              concat (map (\<lambda>(t, g). consultation t g) (zip (sort_by compare_priority (tasks st)) gs)) \<and>
            (\<forall>k < length gs.
               processTask env (length (calls st) + 2 * k)
                 (hd (consultation (sort_by compare_priority (tasks st) ! k) (gs ! k))) = Inr (gs ! k))"
    using assms by (rule executeHierarchical_calls)
next
  show "\<forall>t g. consultation t g =
                   [\<lparr>call_agent = ''lead'',
                     call_prompt = ''Provide guidance for this task: '' @ description t @
                                   ''\<newline>        Agent: '' @ selectBestAgent t @
                                   ''\<newline>        Role: '' @ js_string (role_name (selectBestAgent t)),
                     call_reasoning = False, call_maxSteps = 3\<rparr>,
                    \<lparr>call_agent = selectBestAgent t,
                     call_prompt = description t @ ''\<newline>\<newline>Guidance from lead: '' @
                                   js_string (ar_result g),
                     call_reasoning = True, call_maxSteps = 8\<rparr>] \<and>
                 selectBestAgent t \<noteq> ''lead''"
    using selectBestAgent_not_lead
    by (simp add: consultation_def guidance_call_def worker_call_def guided_prompt_def)
qed

theorem hierarchical_guidance_counterexample:
  "map_option (map call_prompt \<circ> drop 2)
     (calls_of (orchestrateTask (scripted ''- Add login form'' ''pass'' [])
        \<lparr>stype = hierarchical, maxConcurrency = 3, retryOnFailure = True, crossValidation = False\<rparr>
        ''Ship it'' None)) = Some [''Add login form\<newline>\<newline>Guidance from lead: Keep it small''] \<and>
   \<not> startsWith ''Add login form\<newline>\<newline>Guidance from lead: Keep it small'' ''Keep it small'' \<and>
   startsWith ''Add login form\<newline>\<newline>Guidance from lead: Keep it small'' ''Add login form''"
  by code_simp

theorem hierarchical_guidance_witness:
  "map (\<lambda>c. (call_agent c, call_reasoning c))
     (calls (snd (projr (executeHierarchical (scripted [] ''pass'' []) 
        \<lparr>stype = hierarchical, maxConcurrency = 3, retryOnFailure = True, crossValidation = False\<rparr>
        (run_of (parseTaskBreakdown ''- Add login form'' ''Ship it'')))))) =
     [(''lead'', False), (''developer'', True)]"
proof -
  let ?env = "scripted [] ''pass'' []"
  let ?s = "\<lparr>stype = hierarchical, maxConcurrency = 3, retryOnFailure = True, crossValidation = False\<rparr>"
  let ?st = "run_of (parseTaskBreakdown ''- Add login form'' ''Ship it'')"
  let ?H = "executeHierarchical ?env ?s ?st"
  have "\<not> isl ?H" by code_simp
  then have run: "?H = Inr (fst (projr ?H), snd (projr ?H))" by (rule not_isl_projr)
  have ok: "success (fst (projr ?H))" by code_simp
  have ts: "sort_by compare_priority (tasks ?st) = parseTaskBreakdown ''- Add login form'' ''Ship it''"
           "length (tasks ?st) = 1" "calls ?st = []"
           "map selectBestAgent (parseTaskBreakdown ''- Add login form'' ''Ship it'') = [''developer'']"
    by code_simp+
  note main = hierarchical_guidance[OF run]
  from main[THEN conjunct1] ok obtain gs where
    gs: "length gs = length (tasks ?st)"
        "calls (snd (projr ?H)) = calls ?st @
           concat (map (\<lambda>(t, g). consultation t g) (zip (sort_by compare_priority (tasks ?st)) gs))"
    by blast
  note shape = main[THEN conjunct2, rule_format, THEN conjunct1]
  from gs(1) ts(2) obtain g where g: "gs = [g]" by (cases gs) auto
  obtain t where t: "parseTaskBreakdown ''- Add login form'' ''Ship it'' = [t]" "selectBestAgent t = ''developer''"
    using ts(4) by (cases "parseTaskBreakdown ''- Add login form'' ''Ship it''") auto
  have eq: "calls (snd (projr ?H)) =
      concat (map (\<lambda>(t, g). consultation t g) (zip (parseTaskBreakdown ''- Add login form'' ''Ship it'') gs))"
    using gs(2) by (simp only: ts(1) ts(3) append_Nil)
  have z: "concat (map (\<lambda>(t, g). consultation t g) (zip (parseTaskBreakdown ''- Add login form'' ''Ship it'') gs))
             = consultation t g"
    by (simp add: t(1) g)
  show ?thesis unfolding eq z by (simp add: shape t(2))
qed

section \<open>The order of the hierarchical strategy\<close>

lemma worker_calls_of_consultations:
  "filter (\<lambda>c. call_agent c \<noteq> ''lead'') (concat (map (\<lambda>(t, g). consultation t g) zs)) =
     map (\<lambda>(t, g). worker_call (selectBestAgent t) (guided_prompt t g) 8) zs"
  using selectBestAgent_not_lead
  by (induction zs) (auto simp: consultation_def guidance_call_def worker_call_def)

lemma known_ranks:
  "(priority t = ''urgent'' \<longrightarrow> rank t = 0) \<and> (priority t = ''high'' \<longrightarrow> rank t = 1) \<and>
   (priority t = ''medium'' \<longrightarrow> rank t = 2) \<and> (priority t = ''low'' \<longrightarrow> rank t = 3)"
  by (simp add: rank_def priorityIndex_def)

text \<open>
  C7. The hierarchical strategy sorts the task list by priority, \<open>urgent\<close> before \<open>high\<close>
  before \<open>medium\<close> before \<open>low\<close>, keeping the original relative order of tasks of equal
  priority, and invokes the workers in the order of the sorted list; tasks with
  priorities low, urgent, medium are executed in the order urgent, medium, low.
\<close>

theorem hierarchical_priority_order:
  "sorted (map rank (sort_by compare_priority ts)) \<and>
   (\<forall>k. filter (\<lambda>t. rank t = k) (sort_by compare_priority ts) = filter (\<lambda>t. rank t = k) ts) \<and>
   length (sort_by compare_priority ts) = length ts \<and>
   set (sort_by compare_priority ts) = set ts \<and>
   (\<forall>t. (priority t = ''urgent'' \<longrightarrow> rank t = 0) \<and> (priority t = ''high'' \<longrightarrow> rank t = 1) \<and>
        (priority t = ''medium'' \<longrightarrow> rank t = 2) \<and> (priority t = ''low'' \<longrightarrow> rank t = 3)) \<and>
   (priority a = ''low'' \<and> priority b = ''urgent'' \<and> priority c = ''medium'' \<longrightarrow>
      sort_by compare_priority [a, b, c] = [b, c, a]) \<and>
   (\<forall>res st'. executeHierarchical env s st = Inr (res, st') \<longrightarrow>
      (\<exists>gs. length gs \<le> length (tasks st) \<and> (success res \<longrightarrow> length gs = length (tasks st)) \<and>
         filter (\<lambda>c. call_agent c \<noteq> ''lead'') (drop (length (calls st)) (calls st')) =
           map (\<lambda>(t, g). worker_call (selectBestAgent t) (guided_prompt t g) 8)
             (zip (sort_by compare_priority (tasks st)) gs)))"
proof (intro conjI)
  show "sorted (map rank (sort_by compare_priority ts))" by (rule sorted_sort_priority)
  show "\<forall>k. filter (\<lambda>t. rank t = k) (sort_by compare_priority ts) = filter (\<lambda>t. rank t = k) ts"
    by (simp add: stable_sort_priority)
  show "length (sort_by compare_priority ts) = length ts" by (rule length_sort_by)
  show "set (sort_by compare_priority ts) = set ts" by (rule set_sort_by)
  show "\<forall>t. (priority t = ''urgent'' \<longrightarrow> rank t = 0) \<and> (priority t = ''high'' \<longrightarrow> rank t = 1) \<and>
        (priority t = ''medium'' \<longrightarrow> rank t = 2) \<and> (priority t = ''low'' \<longrightarrow> rank t = 3)"
    using known_ranks by blast
  show "priority a = ''low'' \<and> priority b = ''urgent'' \<and> priority c = ''medium'' \<longrightarrow>
      sort_by compare_priority [a, b, c] = [b, c, a]"
    by (simp add: compare_priority_def priorityIndex_def)
  show "\<forall>res st'. executeHierarchical env s st = Inr (res, st') \<longrightarrow>
      (\<exists>gs. length gs \<le> length (tasks st) \<and> (success res \<longrightarrow> length gs = length (tasks st)) \<and>
         filter (\<lambda>c. call_agent c \<noteq> ''lead'') (drop (length (calls st)) (calls st')) =
           map (\<lambda>(t, g). worker_call (selectBestAgent t) (guided_prompt t g) 8)
             (zip (sort_by compare_priority (tasks st)) gs))"
  proof (intro allI impI)
    fix res st' assume "executeHierarchical env s st = Inr (res, st')"
    from executeHierarchical_calls[OF this] obtain gs where
      gs: "length gs \<le> length (tasks st)" "success res \<longrightarrow> length gs = length (tasks st)"
          "calls st' = calls st @
             concat (map (\<lambda>(t, g). consultation t g) (zip (sort_by compare_priority (tasks st)) gs))"
      by blast
    have "filter (\<lambda>c. call_agent c \<noteq> ''lead'') (drop (length (calls st)) (calls st')) =
           map (\<lambda>(t, g). worker_call (selectBestAgent t) (guided_prompt t g) 8)
             (zip (sort_by compare_priority (tasks st)) gs)"
      unfolding gs(3) by (simp add: worker_calls_of_consultations)
    then show "\<exists>gs. length gs \<le> length (tasks st) \<and> (success res \<longrightarrow> length gs = length (tasks st)) \<and>
         filter (\<lambda>c. call_agent c \<noteq> ''lead'') (drop (length (calls st)) (calls st')) =
           map (\<lambda>(t, g). worker_call (selectBestAgent t) (guided_prompt t g) 8)
             (zip (sort_by compare_priority (tasks st)) gs)"
      using gs(1,2) by blast
  qed
qed

theorem hierarchical_priority_order_witness:
  "sort_by compare_priority
     [(described ''Write the changelog'')\<lparr>priority := ''low''\<rparr>,
      (described ''Patch the outage'')\<lparr>priority := ''urgent''\<rparr>,
      (described ''Add login form'')\<lparr>priority := ''medium''\<rparr>] =
     [(described ''Patch the outage'')\<lparr>priority := ''urgent''\<rparr>,
      (described ''Add login form'')\<lparr>priority := ''medium''\<rparr>,
      (described ''Write the changelog'')\<lparr>priority := ''low''\<rparr>] \<and>
   map_option (map call_prompt \<circ> filter (\<lambda>c. call_agent c \<noteq> ''lead''))
     (calls_of (orchestrateTask
        (scripted ''- Write the changelog\<newline>Priority: low\<newline>- Patch the outage\<newline>Priority: urgent\<newline>- Add login form\<newline>Priority: medium''
           ''pass'' [])
        \<lparr>stype = hierarchical, maxConcurrency = 3, retryOnFailure = True, crossValidation = False\<rparr>
        ''Ship it'' None)) =
     Some [''Patch the outage\<newline>\<newline>Guidance from lead: Keep it small'',
           ''Add login form\<newline>\<newline>Guidance from lead: Keep it small'',
           ''Write the changelog\<newline>\<newline>Guidance from lead: Keep it small'']"
proof
  show "sort_by compare_priority
     [(described ''Write the changelog'')\<lparr>priority := ''low''\<rparr>,
      (described ''Patch the outage'')\<lparr>priority := ''urgent''\<rparr>,
      (described ''Add login form'')\<lparr>priority := ''medium''\<rparr>] =
     [(described ''Patch the outage'')\<lparr>priority := ''urgent''\<rparr>,
      (described ''Add login form'')\<lparr>priority := ''medium''\<rparr>,
      (described ''Write the changelog'')\<lparr>priority := ''low''\<rparr>]"
    using hierarchical_priority_order[where a = "(described ''Write the changelog'')\<lparr>priority := ''low''\<rparr>"
        and b = "(described ''Patch the outage'')\<lparr>priority := ''urgent''\<rparr>"
        and c = "(described ''Add login form'')\<lparr>priority := ''medium''\<rparr>",
        THEN conjunct2, THEN conjunct2, THEN conjunct2, THEN conjunct2, THEN conjunct2, THEN conjunct1]
    by simp
next
  show "map_option (map call_prompt \<circ> filter (\<lambda>c. call_agent c \<noteq> ''lead''))
     (calls_of (orchestrateTask
        (scripted ''- Write the changelog\<newline>Priority: low\<newline>- Patch the outage\<newline>Priority: urgent\<newline>- Add login form\<newline>Priority: medium''
           ''pass'' [])
        \<lparr>stype = hierarchical, maxConcurrency = 3, retryOnFailure = True, crossValidation = False\<rparr>
        ''Ship it'' None)) =
     Some [''Patch the outage\<newline>\<newline>Guidance from lead: Keep it small'',
           ''Add login form\<newline>\<newline>Guidance from lead: Keep it small'',
           ''Write the changelog\<newline>\<newline>Guidance from lead: Keep it small'']"
    by code_simp
qed

text \<open>With \<open>maxConcurrency = 0\<close> every batch is empty and the index never moves: the loop
  does not end.\<close>

lemma run_batch_empty: "run_batch env [] st = ([], st)"
  by (simp add: run_batch_def)

lemma executeParallel_loop_zero_aux:
  assumes "executeParallel_loop env s i rs st = Some y"
  shows "\<not> (maxConcurrency s = 0 \<and> i < int (length (tasks st)))"
  using assms
proof (induction rule: executeParallel_loop.raw_induct[rotated 1, consumes 1])
  case (1 loop env s i rs st y)
  show ?case
  proof
    assume z: "maxConcurrency s = 0 \<and> i < int (length (tasks st))"
    then have "fst (slice_bounds (length (tasks st)) i (i + maxConcurrency s)) =
               snd (slice_bounds (length (tasks st)) i (i + maxConcurrency s))"
      by (simp add: slice_bounds_def Let_def)
    then have "loop env s i rs st = Some y"
      using 1(2) z by (simp add: Let_def run_batch_empty)
    from 1(1)[OF this] z show False by simp
  qed
qed

lemma executeParallel_zero_concurrency:
  assumes "maxConcurrency s = 0" "tasks st \<noteq> []"
  shows "executeParallel env s st = None"
proof (cases "executeParallel env s st")
  case None
  then show ?thesis .
next
  case (Some y)
  then have "executeParallel_loop env s 0 [] st = Some y" by (simp add: executeParallel_def)
  from executeParallel_loop_zero_aux[OF this] assms show ?thesis by simp
qed

section \<open>Batches and their barrier\<close>

lemma contiguous_batches_concat: "0 < k \<Longrightarrow> concat (contiguous_batches k xs) = xs"
proof (induction k xs rule: contiguous_batches.induct)
  case (1 k xs)
  show ?case
  proof (cases "xs = []")
    case True
    then show ?thesis by simp
  next
    case False
    then show ?thesis using 1 by (subst contiguous_batches.simps) simp
  qed
qed

lemma contiguous_batches_sizes:
  "0 < k \<Longrightarrow> b \<in> set (contiguous_batches k xs) \<Longrightarrow> 0 < length b \<and> length b \<le> k"
proof (induction k xs rule: contiguous_batches.induct)
  case (1 k xs)
  show ?case
  proof (cases "xs = []")
    case True
    then show ?thesis using 1(3) by simp
  next
    case False
    then have "contiguous_batches k xs = take k xs # contiguous_batches k (drop k xs)"
      using 1(2) by (subst contiguous_batches.simps) simp
    then have "b = take k xs \<or> b \<in> set (contiguous_batches k (drop k xs))" using 1(3) by simp
    then show ?thesis using 1(1)[OF _ 1(2)] False 1(2) by auto
  qed
qed

lemma contiguous_batches_full:
  "0 < k \<Longrightarrow> b \<in> set (butlast (contiguous_batches k xs)) \<Longrightarrow> length b = k"
proof (induction k xs rule: contiguous_batches.induct)
  case (1 k xs)
  show ?case
  proof (cases "xs = []")
    case True
    then show ?thesis using 1(3) by simp
  next
    case False
    then have eq: "contiguous_batches k xs = take k xs # contiguous_batches k (drop k xs)"
      using 1(2) by (subst contiguous_batches.simps) simp
    show ?thesis
    proof (cases "contiguous_batches k (drop k xs) = []")
      case True
      then show ?thesis using 1(3) eq by simp
    next
      case rest: False
      then have "drop k xs \<noteq> []" by auto
      then have full: "length (take k xs) = k" by simp
      have "b = take k xs \<or> b \<in> set (butlast (contiguous_batches k (drop k xs)))"
        using 1(3) eq rest by simp
      then show ?thesis using full 1(1)[OF _ 1(2)] False 1(2) by auto
    qed
  qed
qed

lemma collect_results_failure: "Inl m \<in> set os \<Longrightarrow> \<exists>rs1. collect_results False os rs = Inl rs1"
  by (induction False os rs rule: collect_results.induct) auto

lemma collect_results_all_fulfilled:
  "\<forall>out \<in> set os. \<not> isl out \<Longrightarrow> \<exists>rs1. collect_results retry os rs = Inr rs1"
  by (induction retry os rs rule: collect_results.induct) auto

lemma kept_description:
  "description ((xs[i := (xs ! i)\<lparr>result := v, status := w\<rparr>]) ! j) = description (xs ! j)"
  "description ((xs[i := (xs ! i)\<lparr>status := w, result := v\<rparr>]) ! j) = description (xs ! j)"
  by (cases "i < length xs"; cases "j = i"; simp add: list_update_beyond)+

lemma complete_task_timeline:
  "timeline (complete_task i a r st) = timeline st @ [(''Task completed: '' @ description (tasks st ! i), a)]"
  by (simp add: complete_task_def Let_def kept_description)

lemma fail_task_timeline:
  "timeline (fail_task i a m st) = timeline st @ [(''Task failed: '' @ description (tasks st ! i), a)]"
  by (simp add: fail_task_def Let_def kept_description)

lemma settle_timeline: "timeline (settle p st) = timeline st @ [finished_event st p]"
  by (cases p) (simp add: settle_def finished_event_def complete_task_timeline fail_task_timeline
                   split: sum.splits)

lemma settle_description: "description (tasks (settle p st) ! j) = description (tasks st ! j)"
  by (cases p) (simp add: settle_def kept_description split: sum.splits)

lemma settle_all_timeline:
  "timeline (foldl (\<lambda>s p. settle p s) st order) = timeline st @ map (finished_event st) order"
proof (induction order arbitrary: st)
  case Nil
  show ?case by simp
next
  case (Cons p order)
  have "finished_event (settle p st) = finished_event st"
    by (simp add: finished_event_def settle_description fun_eq_iff)
  then show ?case using Cons.IH[of "settle p st"] by (simp add: settle_timeline)
qed

lemma dispatch_timeline: "timeline (snd (dispatch env i st)) = timeline st @ [started_event st i]"
  by (simp add: dispatch_def Let_def started_event_def)

lemma dispatch_all_timeline:
  "timeline (snd (dispatch_all env b st)) = timeline st @ map (started_event st) b"
proof (induction b arbitrary: st)
  case Nil
  show ?case by simp
next
  case (Cons i b)
  have "started_event (snd (dispatch env i st)) j = started_event st j" for j
    using dispatch_same_work[where st = st and j = j and env = env and i = i]
          same_work_select[OF dispatch_same_work[where st = st and j = j and env = env and i = i]]
    by (simp add: started_event_def same_work_def)
  then have "started_event (snd (dispatch env i st)) = started_event st" by (simp add: fun_eq_iff)
  then show ?case using Cons.IH[of "snd (dispatch env i st)"] by (simp add: Let_def dispatch_timeline)
qed

lemma run_batch_timeline:
  "timeline (snd (run_batch env b st)) =
     timeline st @ map (started_event st) b @
     map (finished_event st) (sort_key (\<lambda>p. finish_rank env (fst (snd p))) (fst (dispatch_all env b st)))"
proof -
  have "finished_event (snd (dispatch_all env b st)) p = finished_event st p" for p
    using dispatch_all_same_work[where st = st and j = "fst p" and env = env and ps = b]
    by (simp add: finished_event_def same_work_def)
  then have "finished_event (snd (dispatch_all env b st)) = finished_event st" by (simp add: fun_eq_iff)
  then show ?thesis
    by (simp add: run_batch_def Let_def settle_all_timeline dispatch_all_timeline)
qed

lemma run_batches_continue:
  assumes "(\<forall>out \<in> set (fst (run_batch env batch st)). \<not> isl out) \<or> retry"
  shows "\<exists>rs1. run_batches env retry (batch # rest) rs st =
                 run_batches env retry rest rs1 (snd (run_batch env batch st))"
proof -
  have "\<exists>rs1. collect_results retry (fst (run_batch env batch st)) rs = Inr rs1"
    using assms collect_results_all_fulfilled collect_results_retry by (cases retry) auto
  then show ?thesis by (auto simp: Let_def)
qed

lemma run_batches_abort:
  assumes "Inl m \<in> set (fst (run_batch env batch st))" "\<not> retry"
  shows "\<exists>rs1. run_batches env retry (batch # rest) rs st =
                 (\<lparr>success = False, results = rs1, validationIssues = None\<rparr>, snd (run_batch env batch st))"
proof -
  have "\<exists>rs1. collect_results retry (fst (run_batch env batch st)) rs = Inl rs1"
    using assms collect_results_failure by simp
  then show ?thesis by (auto simp: Let_def)
qed

lemma run_batch_events:
  "\<exists>order. set order = set (fst (dispatch_all env batch st)) \<and> length order = length batch \<and>
           map fst (fst (dispatch_all env batch st)) = batch \<and>
           timeline (snd (run_batch env batch st)) =
             timeline st @ map (started_event st) batch @ map (finished_event st) order"
proof -
  let ?ds = "fst (dispatch_all env batch st)"
  let ?order = "sort_key (\<lambda>p. finish_rank env (fst (snd p))) ?ds"
  have "length ?ds = length batch" by (metis dispatch_all_positions length_map)
  then have "set ?order = set ?ds \<and> length ?order = length batch \<and> map fst ?ds = batch \<and>
        timeline (snd (run_batch env batch st)) =
             timeline st @ map (started_event st) batch @ map (finished_event st) ?order"
    using run_batch_timeline by simp
  then show ?thesis by blast
qed

section \<open>What a run records of a rejected invocation\<close>














lemma run_batch_no_failure:
  assumes "distinct b" "\<forall>j \<in> set b. j < length (tasks st)"
    and "\<forall>out \<in> set (fst (run_batch env b st)). \<not> isl out" "no_failure st"
  shows "no_failure (snd (run_batch env b st))"
  unfolding no_failure_def
proof (intro allI impI)
  let ?mid = "snd (run_batch env b st)"
  fix j assume j: "j < length (tasks ?mid)"
  show "status (tasks ?mid ! j) \<noteq> failed"
  proof (cases "j \<in> set b")
    case True
    then obtain k where k: "k < length b" "b ! k = j" by (auto simp: in_set_conv_nth)
    then have "\<not> isl (fst (run_batch env b st) ! k)" using assms(3) by simp
    with run_batch_settled[OF assms(1,2) k(1), of env] k(2) show ?thesis
      by (cases "fst (run_batch env b st) ! k") (auto simp: settled_as_def)
  next
    case False
    then have "tasks ?mid ! j = tasks st ! j" by (rule run_batch_other)
    then show ?thesis using assms(4) j unfolding no_failure_def by auto
  qed
qed

lemma run_batch_failure:
  assumes "distinct b" "\<forall>j \<in> set b. j < length (tasks st)"
  shows "(\<exists>m. Inl m \<in> set (fst (run_batch env b st))) \<longleftrightarrow>
         (\<exists>j \<in> set b. status (tasks (snd (run_batch env b st)) ! j) = failed)"
proof
  assume "\<exists>m. Inl m \<in> set (fst (run_batch env b st))"
  then obtain m k where k: "k < length b" "fst (run_batch env b st) ! k = Inl m"
    by (auto simp: in_set_conv_nth)
  with run_batch_settled[OF assms k(1), of env] have "status (tasks (snd (run_batch env b st)) ! (b ! k)) = failed"
    by (simp add: settled_as_def)
  then show "\<exists>j \<in> set b. status (tasks (snd (run_batch env b st)) ! j) = failed"
    using k(1) by (meson nth_mem)
next
  assume "\<exists>j \<in> set b. status (tasks (snd (run_batch env b st)) ! j) = failed"
  then obtain k where k: "k < length b" "status (tasks (snd (run_batch env b st)) ! (b ! k)) = failed"
    by (auto simp: in_set_conv_nth)
  with run_batch_settled[OF assms k(1), of env] obtain m where "fst (run_batch env b st) ! k = Inl m"
    by (cases "fst (run_batch env b st) ! k") (auto simp: settled_as_def)
  then have "Inl m \<in> set (fst (run_batch env b st))" using k(1) by (metis nth_mem run_batch_count)
  then show "\<exists>m. Inl m \<in> set (fst (run_batch env b st))" by blast
qed

lemma collect_results_returned:
  "collect_results False os rs = Inr rs1 \<Longrightarrow> \<forall>out \<in> set os. \<not> isl out"
  using collect_results_failure[of _ os rs] by (metis Inl_Inr_False isl_def)

lemma collect_results_aborted:
  "collect_results retry os rs = Inl rs1 \<Longrightarrow> \<not> retry \<and> (\<exists>m. Inl m \<in> set os)"
  by (induction retry os rs rule: collect_results.induct) (auto split: if_splits)






lemma run_batches_no_failure:
  assumes "distinct (concat bs)" "\<forall>j \<in> set (concat bs). j < length (tasks st)"
    and "success (fst (run_batches env False bs rs st))" "no_failure st"
  shows "no_failure (snd (run_batches env False bs rs st))"
  using assms
proof (induction bs arbitrary: rs st)
  case Nil
  then show ?case by simp
next
  case (Cons b bs)
  let ?mid = "snd (run_batch env b st)"
  have b: "distinct b" "\<forall>j \<in> set b. j < length (tasks st)" using Cons.prems by auto
  show ?case
  proof (cases "collect_results False (fst (run_batch env b st)) rs")
    case (Inl rs1)
    then show ?thesis using Cons.prems(3) by (simp add: Let_def)
  next
    case (Inr rs1)
    then have "\<forall>out \<in> set (fst (run_batch env b st)). \<not> isl out" by (rule collect_results_returned)
    then have "no_failure ?mid" using Cons.prems(4) by (intro run_batch_no_failure[OF b])
    moreover have "success (fst (run_batches env False bs rs1 ?mid))" using Cons.prems(3) Inr by (simp add: Let_def)
    ultimately have "no_failure (snd (run_batches env False bs rs1 ?mid))"
      using Cons.prems(1,2) by (intro Cons.IH) auto
    then show ?thesis using Inr by (simp add: Let_def)
  qed
qed

lemma run_batches_barrier:
  assumes "distinct (concat bs)" "\<forall>j \<in> set (concat bs). j < length (tasks st)"
  shows "\<exists>ran rest. bs = ran @ rest \<and>
           (\<forall>j \<in> set (concat ran). terminal (status (tasks (snd (run_batches env retry bs rs st)) ! j))) \<and>
           (\<forall>j \<in> set (concat rest). tasks (snd (run_batches env retry bs rs st)) ! j = tasks st ! j) \<and>
           (success (fst (run_batches env retry bs rs st)) \<longrightarrow> rest = []) \<and>
           (\<not> success (fst (run_batches env retry bs rs st)) \<longrightarrow>
              \<not> retry \<and> ran \<noteq> [] \<and>
              (\<exists>j \<in> set (last ran). status (tasks (snd (run_batches env retry bs rs st)) ! j) = failed))"
  using assms
proof (induction bs arbitrary: rs st)
  case Nil
  then show ?case by simp
next
  case (Cons b bs)
  let ?mid = "snd (run_batch env b st)"
  have b: "distinct b" "\<forall>j \<in> set b. j < length (tasks st)" "set b \<inter> set (concat bs) = {}"
    using Cons.prems by auto
  have fin: "\<forall>j \<in> set b. terminal (status (tasks ?mid ! j))"
    using run_batch_terminal b(2) by blast
  have other: "\<forall>j \<in> set (concat bs). tasks ?mid ! j = tasks st ! j"
    using run_batch_other b(3) by blast
  show ?case
  proof (cases "collect_results retry (fst (run_batch env b st)) rs")
    case (Inl rs1)
    then have r: "run_batches env retry (b # bs) rs st =
                    (\<lparr>success = False, results = rs1, validationIssues = None\<rparr>, ?mid)"
      by (simp add: Let_def)
    from collect_results_aborted[OF Inl] run_batch_failure[OF b(1,2), of env]
    have "\<not> retry" "\<exists>j \<in> set b. status (tasks ?mid ! j) = failed" by auto
    then have "b # bs = [b] @ bs \<and>
           (\<forall>j \<in> set (concat [b]). terminal (status (tasks ?mid ! j))) \<and>
           (\<forall>j \<in> set (concat bs). tasks ?mid ! j = tasks st ! j) \<and>
           (\<not> retry \<and> [b] \<noteq> [] \<and> (\<exists>j \<in> set (last [b]). status (tasks ?mid ! j) = failed))"
      using fin other by simp
    then show ?thesis unfolding r by (intro exI[where x = "[b]"] exI[where x = bs]) simp
  next
    case (Inr rs1)
    let ?r = "run_batches env retry bs rs1 ?mid"
    have r: "run_batches env retry (b # bs) rs st = ?r" using Inr by (simp add: Let_def)
    have "\<exists>ran rest. bs = ran @ rest \<and>
           (\<forall>j \<in> set (concat ran). terminal (status (tasks (snd ?r) ! j))) \<and>
           (\<forall>j \<in> set (concat rest). tasks (snd ?r) ! j = tasks ?mid ! j) \<and>
           (success (fst ?r) \<longrightarrow> rest = []) \<and>
           (\<not> success (fst ?r) \<longrightarrow>
              \<not> retry \<and> ran \<noteq> [] \<and> (\<exists>j \<in> set (last ran). status (tasks (snd ?r) ! j) = failed))"
      using Cons.prems by (intro Cons.IH) auto
    then obtain ran rest where ih: "bs = ran @ rest"
      "\<forall>j \<in> set (concat ran). terminal (status (tasks (snd ?r) ! j))"
      "\<forall>j \<in> set (concat rest). tasks (snd ?r) ! j = tasks ?mid ! j"
      "success (fst ?r) \<longrightarrow> rest = []"
      "\<not> success (fst ?r) \<longrightarrow>
         \<not> retry \<and> ran \<noteq> [] \<and> (\<exists>j \<in> set (last ran). status (tasks (snd ?r) ! j) = failed)"
      by blast
    have adv: "advances ?mid (snd ?r)" by (rule run_batches_advances)
    have 1: "\<forall>j \<in> set (concat (b # ran)). terminal (status (tasks (snd ?r) ! j))"
    proof
      fix j assume "j \<in> set (concat (b # ran))"
      then consider "j \<in> set b" | "j \<in> set (concat ran)" by auto
      then show "terminal (status (tasks (snd ?r) ! j))"
      proof cases
        case 1
        then show ?thesis using advances_terminal[OF adv, of j] fin b(2) by simp
      next
        case 2
        then show ?thesis using ih(2) by blast
      qed
    qed
    have 2: "\<forall>j \<in> set (concat rest). tasks (snd ?r) ! j = tasks st ! j"
      using ih(1,3) other by auto
    have 3: "\<not> success (fst ?r) \<longrightarrow>
         \<not> retry \<and> b # ran \<noteq> [] \<and> (\<exists>j \<in> set (last (b # ran)). status (tasks (snd ?r) ! j) = failed)"
      using ih(5) by auto
    have "b # bs = (b # ran) @ rest" using ih(1) by simp
    then show ?thesis unfolding r using 1 2 3 ih(4) by blast
  qed
qed

lemma run_batches_abort_failed:
  assumes "distinct batch" "\<forall>j \<in> set batch. j < length (tasks st)"
    and "\<exists>j \<in> set batch. status (tasks (snd (run_batch env batch st)) ! j) = failed" "\<not> retry"
  shows "\<exists>rs1. run_batches env retry (batch # rest) rs st =
                 (\<lparr>success = False, results = rs1, validationIssues = None\<rparr>, snd (run_batch env batch st))"
proof -
  from assms(3) run_batch_failure[OF assms(1,2), of env] obtain m where
    "Inl m \<in> set (fst (run_batch env batch st))" by blast
  then show ?thesis using assms(4) by (rule run_batches_abort)
qed

lemma run_batches_continue_completed:
  assumes "distinct batch" "\<forall>j \<in> set batch. j < length (tasks st)"
    and "(\<forall>j \<in> set batch. status (tasks (snd (run_batch env batch st)) ! j) \<noteq> failed) \<or> retry"
  shows "\<exists>rs1. run_batches env retry (batch # rest) rs st =
                 run_batches env retry rest rs1 (snd (run_batch env batch st))"
proof -
  have "(\<forall>out \<in> set (fst (run_batch env batch st)). \<not> isl out) \<or> retry"
    using assms(3) run_batch_failure[OF assms(1,2), of env] by (metis isl_def)
  then show ?thesis by (rule run_batches_continue)
qed

text \<open>
  C5. For a positive \<open>maxConcurrency\<close> the parallel strategy is the run, one after the
  other, of the contiguous batches of that size into which the task positions are
  partitioned (five tasks and size 2 give batches of sizes 2, 2, 1). A batch returns only
  when every task in it has a terminal status: in the timeline its started entries are
  followed by one finished entry for each of its in-flight invocations, and the next
  batch is dispatched from that state. What a batch hands to the loop is, in batch order,
  the outcome of each of its invocations, and every task of the batch is left as its own
  outcome says: \<open>completed\<close> with the worker's answer, or \<open>failed\<close> with the message of
  the rejection; the tasks outside the batch are untouched. So a batch holds a rejected
  outcome exactly when it holds a failed task. With \<open>retryOnFailure = false\<close> a batch
  holding a failed task, wherever in the batch, ends the run with \<open>success = false\<close> in
  the state reached at that batch's barrier. In the state a run returns, the batches that
  ran are a prefix of the partition and all their tasks are terminal, the tasks of the
  later batches are as they were at the start, a run that reports \<open>success = false\<close> was
  built with \<open>retryOnFailure = false\<close> and the last batch that ran holds a failed task;
  and with \<open>retryOnFailure = false\<close> a run that starts without a failed task and leaves
  one does not report success.
\<close>

theorem parallel_batches:
  assumes "0 < maxConcurrency s"
  shows
   "executeParallel env s st =
      Some (run_batches env (retryOnFailure s)
              (contiguous_batches (nat (maxConcurrency s)) [0..<length (tasks st)]) [] st) \<and>
    concat (contiguous_batches (nat (maxConcurrency s)) [0..<length (tasks st)]) = [0..<length (tasks st)] \<and>
    (\<forall>b \<in> set (contiguous_batches (nat (maxConcurrency s)) [0..<length (tasks st)]).
       0 < length b \<and> length b \<le> nat (maxConcurrency s)) \<and>
    (\<forall>b \<in> set (butlast (contiguous_batches (nat (maxConcurrency s)) [0..<length (tasks st)])).
       length b = nat (maxConcurrency s)) \<and>
    map length (contiguous_batches 2 [0..<5::nat]) = [2, 2, 1] \<and>
    (\<forall>batch st1.
       (\<forall>j \<in> set batch. j < length (tasks st1) \<longrightarrow>
          terminal (status (tasks (snd (run_batch env batch st1)) ! j))) \<and>
       (\<exists>order. set order = set (fst (dispatch_all env batch st1)) \<and> length order = length batch \<and>
           map fst (fst (dispatch_all env batch st1)) = batch \<and>
           timeline (snd (run_batch env batch st1)) =
             timeline st1 @ map (started_event st1) batch @ map (finished_event st1) order)) \<and>
    (\<forall>batch rest rs st1.
       ((\<forall>out \<in> set (fst (run_batch env batch st1)). \<not> isl out) \<or> retryOnFailure s \<longrightarrow>
          (\<exists>rs1. run_batches env (retryOnFailure s) (batch # rest) rs st1 =
                   run_batches env (retryOnFailure s) rest rs1 (snd (run_batch env batch st1)))) \<and>
       ((\<exists>m. Inl m \<in> set (fst (run_batch env batch st1))) \<and> \<not> retryOnFailure s \<longrightarrow>
          (\<exists>rs1. run_batches env (retryOnFailure s) (batch # rest) rs st1 =
                   (\<lparr>success = False, results = rs1, validationIssues = None\<rparr>,
                    snd (run_batch env batch st1))))) \<and>
    (\<forall>batch st1.
       distinct batch \<and> (\<forall>j \<in> set batch. j < length (tasks st1)) \<longrightarrow>
         length (fst (run_batch env batch st1)) = length batch \<and>
         (\<forall>k < length batch.
            fst (run_batch env batch st1) ! k =
              processTask env (length (calls st1) + k)
                (calls (snd (run_batch env batch st1)) ! (length (calls st1) + k)) \<and>
            settled_as (fst (run_batch env batch st1) ! k)
              (tasks (snd (run_batch env batch st1)) ! (batch ! k))) \<and>
         (\<forall>j. j \<notin> set batch \<longrightarrow> tasks (snd (run_batch env batch st1)) ! j = tasks st1 ! j) \<and>
         ((\<exists>m. Inl m \<in> set (fst (run_batch env batch st1))) \<longleftrightarrow>
          (\<exists>j \<in> set batch. status (tasks (snd (run_batch env batch st1)) ! j) = failed))) \<and>
    (\<forall>batch rest rs st1.
       distinct batch \<and> (\<forall>j \<in> set batch. j < length (tasks st1)) \<longrightarrow>
         ((\<exists>j \<in> set batch. status (tasks (snd (run_batch env batch st1)) ! j) = failed) \<and>
          \<not> retryOnFailure s \<longrightarrow>
            (\<exists>rs1. run_batches env (retryOnFailure s) (batch # rest) rs st1 =
                     (\<lparr>success = False, results = rs1, validationIssues = None\<rparr>,
                      snd (run_batch env batch st1)))) \<and>
         ((\<forall>j \<in> set batch. status (tasks (snd (run_batch env batch st1)) ! j) \<noteq> failed) \<or>
          retryOnFailure s \<longrightarrow>
            (\<exists>rs1. run_batches env (retryOnFailure s) (batch # rest) rs st1 =
                     run_batches env (retryOnFailure s) rest rs1 (snd (run_batch env batch st1))))) \<and>
    (\<forall>res st'.
       executeParallel env s st = Some (res, st') \<longrightarrow>
         (\<exists>ran rest.
            contiguous_batches (nat (maxConcurrency s)) [0..<length (tasks st)] = ran @ rest \<and>
            (\<forall>j \<in> set (concat ran). terminal (status (tasks st' ! j))) \<and>
            (\<forall>j \<in> set (concat rest). tasks st' ! j = tasks st ! j) \<and>
            (success res \<longrightarrow> rest = []) \<and>
            (\<not> success res \<longrightarrow>
               \<not> retryOnFailure s \<and> ran \<noteq> [] \<and>
               (\<exists>j \<in> set (last ran). status (tasks st' ! j) = failed))) \<and>
         (\<not> retryOnFailure s \<and> (\<forall>t \<in> set (tasks st). status t \<noteq> failed) \<and>
          (\<exists>t \<in> set (tasks st'). status t = failed) \<longrightarrow> \<not> success res))"
proof (intro conjI)
  have k: "0 < nat (maxConcurrency s)" using assms by simp
  let ?bs = "contiguous_batches (nat (maxConcurrency s)) [0..<length (tasks st)]"
  have ret: "executeParallel env s st = Some (run_batches env (retryOnFailure s) ?bs [] st)"
    using assms by (rule executeParallel_returns)
  have cc: "concat ?bs = [0..<length (tasks st)]"
    using k by (rule contiguous_batches_concat)
  show "executeParallel env s st = Some (run_batches env (retryOnFailure s) ?bs [] st)" by (rule ret)
  show "concat ?bs = [0..<length (tasks st)]" by (rule cc)
  show "\<forall>b \<in> set ?bs. 0 < length b \<and> length b \<le> nat (maxConcurrency s)"
    using contiguous_batches_sizes[OF k] by blast
  show "\<forall>b \<in> set (butlast ?bs). length b = nat (maxConcurrency s)"
    using contiguous_batches_full[OF k] by blast
  show "map length (contiguous_batches 2 [0..<5::nat]) = [2, 2, 1]" by code_simp
  show "\<forall>batch st1.
       (\<forall>j \<in> set batch. j < length (tasks st1) \<longrightarrow>
          terminal (status (tasks (snd (run_batch env batch st1)) ! j))) \<and>
       (\<exists>order. set order = set (fst (dispatch_all env batch st1)) \<and> length order = length batch \<and>
           map fst (fst (dispatch_all env batch st1)) = batch \<and>
           timeline (snd (run_batch env batch st1)) =
             timeline st1 @ map (started_event st1) batch @ map (finished_event st1) order)"
    using run_batch_terminal run_batch_events by blast
  show "\<forall>batch rest rs st1.
       ((\<forall>out \<in> set (fst (run_batch env batch st1)). \<not> isl out) \<or> retryOnFailure s \<longrightarrow>
          (\<exists>rs1. run_batches env (retryOnFailure s) (batch # rest) rs st1 =
                   run_batches env (retryOnFailure s) rest rs1 (snd (run_batch env batch st1)))) \<and>
       ((\<exists>m. Inl m \<in> set (fst (run_batch env batch st1))) \<and> \<not> retryOnFailure s \<longrightarrow>
          (\<exists>rs1. run_batches env (retryOnFailure s) (batch # rest) rs st1 =
                   (\<lparr>success = False, results = rs1, validationIssues = None\<rparr>,
                    snd (run_batch env batch st1))))"
    using run_batches_continue run_batches_abort by blast
  show "\<forall>batch st1.
       distinct batch \<and> (\<forall>j \<in> set batch. j < length (tasks st1)) \<longrightarrow>
         length (fst (run_batch env batch st1)) = length batch \<and>
         (\<forall>k < length batch.
            fst (run_batch env batch st1) ! k =
              processTask env (length (calls st1) + k)
                (calls (snd (run_batch env batch st1)) ! (length (calls st1) + k)) \<and>
            settled_as (fst (run_batch env batch st1) ! k)
              (tasks (snd (run_batch env batch st1)) ! (batch ! k))) \<and>
         (\<forall>j. j \<notin> set batch \<longrightarrow> tasks (snd (run_batch env batch st1)) ! j = tasks st1 ! j) \<and>
         ((\<exists>m. Inl m \<in> set (fst (run_batch env batch st1))) \<longleftrightarrow>
          (\<exists>j \<in> set batch. status (tasks (snd (run_batch env batch st1)) ! j) = failed))"
  proof (intro allI impI, elim conjE, intro conjI)
    fix batch :: "nat list" and st1 :: run_state
    assume b: "distinct batch" "\<forall>j \<in> set batch. j < length (tasks st1)"
    show "length (fst (run_batch env batch st1)) = length batch" by (rule run_batch_count)
    show "\<forall>k < length batch.
            fst (run_batch env batch st1) ! k =
              processTask env (length (calls st1) + k)
                (calls (snd (run_batch env batch st1)) ! (length (calls st1) + k)) \<and>
            settled_as (fst (run_batch env batch st1) ! k)
              (tasks (snd (run_batch env batch st1)) ! (batch ! k))"
      using run_batch_outcomes run_batch_settled[OF b] by blast
    show "\<forall>j. j \<notin> set batch \<longrightarrow> tasks (snd (run_batch env batch st1)) ! j = tasks st1 ! j"
      using run_batch_other by blast
    show "(\<exists>m. Inl m \<in> set (fst (run_batch env batch st1))) \<longleftrightarrow>
          (\<exists>j \<in> set batch. status (tasks (snd (run_batch env batch st1)) ! j) = failed)"
      by (rule run_batch_failure[OF b])
  qed
  show "\<forall>batch rest rs st1.
       distinct batch \<and> (\<forall>j \<in> set batch. j < length (tasks st1)) \<longrightarrow>
         ((\<exists>j \<in> set batch. status (tasks (snd (run_batch env batch st1)) ! j) = failed) \<and>
          \<not> retryOnFailure s \<longrightarrow>
            (\<exists>rs1. run_batches env (retryOnFailure s) (batch # rest) rs st1 =
                     (\<lparr>success = False, results = rs1, validationIssues = None\<rparr>,
                      snd (run_batch env batch st1)))) \<and>
         ((\<forall>j \<in> set batch. status (tasks (snd (run_batch env batch st1)) ! j) \<noteq> failed) \<or>
          retryOnFailure s \<longrightarrow>
            (\<exists>rs1. run_batches env (retryOnFailure s) (batch # rest) rs st1 =
                     run_batches env (retryOnFailure s) rest rs1 (snd (run_batch env batch st1))))"
    using run_batches_abort_failed run_batches_continue_completed by blast
  show "\<forall>res st'.
       executeParallel env s st = Some (res, st') \<longrightarrow>
         (\<exists>ran rest.
            ?bs = ran @ rest \<and>
            (\<forall>j \<in> set (concat ran). terminal (status (tasks st' ! j))) \<and>
            (\<forall>j \<in> set (concat rest). tasks st' ! j = tasks st ! j) \<and>
            (success res \<longrightarrow> rest = []) \<and>
            (\<not> success res \<longrightarrow>
               \<not> retryOnFailure s \<and> ran \<noteq> [] \<and>
               (\<exists>j \<in> set (last ran). status (tasks st' ! j) = failed))) \<and>
         (\<not> retryOnFailure s \<and> (\<forall>t \<in> set (tasks st). status t \<noteq> failed) \<and>
          (\<exists>t \<in> set (tasks st'). status t = failed) \<longrightarrow> \<not> success res)"
  proof (intro allI impI)
    fix res :: exec_result and st' :: run_state
    assume "executeParallel env s st = Some (res, st')"
    then have r: "run_batches env (retryOnFailure s) ?bs [] st = (res, st')" using ret by simp
    have d: "distinct (concat ?bs)" "\<forall>j \<in> set (concat ?bs). j < length (tasks st)"
      unfolding cc by simp_all
    have 1: "\<exists>ran rest.
            ?bs = ran @ rest \<and>
            (\<forall>j \<in> set (concat ran). terminal (status (tasks st' ! j))) \<and>
            (\<forall>j \<in> set (concat rest). tasks st' ! j = tasks st ! j) \<and>
            (success res \<longrightarrow> rest = []) \<and>
            (\<not> success res \<longrightarrow>
               \<not> retryOnFailure s \<and> ran \<noteq> [] \<and>
               (\<exists>j \<in> set (last ran). status (tasks st' ! j) = failed))"
      using run_batches_barrier[OF d, of env "retryOnFailure s" "[]"] unfolding r by simp
    have 2: "\<not> retryOnFailure s \<and> (\<forall>t \<in> set (tasks st). status t \<noteq> failed) \<and>
          (\<exists>t \<in> set (tasks st'). status t = failed) \<longrightarrow> \<not> success res"
    proof (intro impI notI, elim conjE)
      assume h: "\<not> retryOnFailure s" "\<forall>t \<in> set (tasks st). status t \<noteq> failed"
        "\<exists>t \<in> set (tasks st'). status t = failed" "success res"
      have "no_failure st" using h(2) by (simp add: no_failure_def)
      then have "no_failure st'"
        using run_batches_no_failure[OF d, of env "[]"] r h(1,4) by simp
      then show False using h(3) unfolding no_failure_def by (metis in_set_conv_nth)
    qed
    from 1 2 show "(\<exists>ran rest.
            ?bs = ran @ rest \<and>
            (\<forall>j \<in> set (concat ran). terminal (status (tasks st' ! j))) \<and>
            (\<forall>j \<in> set (concat rest). tasks st' ! j = tasks st ! j) \<and>
            (success res \<longrightarrow> rest = []) \<and>
            (\<not> success res \<longrightarrow>
               \<not> retryOnFailure s \<and> ran \<noteq> [] \<and>
               (\<exists>j \<in> set (last ran). status (tasks st' ! j) = failed))) \<and>
         (\<not> retryOnFailure s \<and> (\<forall>t \<in> set (tasks st). status t \<noteq> failed) \<and>
          (\<exists>t \<in> set (tasks st'). status t = failed) \<longrightarrow> \<not> success res)" by (rule conjI)
  qed
qed

theorem parallel_batches_witness:
  "map_option (\<lambda>r. (success (fst r), map (\<lambda>t. (status t, result t = Some (Error_result ''boom''))) (tasks (snd r)),
                    map fst (timeline (snd r))))
     (executeParallel
        ((scripted [] ''pass'' [''tester''])\<lparr>finish_rank := (\<lambda>n. 100 - n)\<rparr>)
        \<lparr>stype = parallel, maxConcurrency = 2, retryOnFailure = False, crossValidation = False\<rparr>
        (run_of (parseTaskBreakdown ''- Add A\<newline>- Add B\<newline>- Fix bug\<newline>- Add D\<newline>- Add E'' ''Ship it'')))
   = Some (False,
           [(completed, False), (completed, False), (failed, True), (completed, False), (pending, False)],
           [''Task started: Add A'', ''Task started: Add B'',
            ''Task completed: Add B'', ''Task completed: Add A'',
            ''Task started: Fix bug'', ''Task started: Add D'',
            ''Task completed: Add D'', ''Task failed: Fix bug''])"
proof -
  let ?s = "\<lparr>stype = parallel, maxConcurrency = 2, retryOnFailure = False, crossValidation = False\<rparr>"
  have pos: "0 < maxConcurrency ?s" by simp
  show ?thesis
    unfolding parallel_batches[OF pos, THEN conjunct1] by code_simp
qed

section \<open>What a Run Report says of the failures\<close>








end
